theory Spec2Isabelle
  imports Main
begin

text \<open>
  The scheduler and the auto-off timers of the ESP32 controller, its task store, and the
  router and connection handling of its web server, as functions on explicit states.
  What the hardware, the file system, the socket and the \<open>re\<close> module do is an input
  of these functions or is modelled where it is used.
\<close>


section \<open>Task store (esp-board/lib/task_manager.py)\<close>

text \<open>
  A task is the dictionary built by \<open>add_task\<close>: the four keys \<open>date\<close>, \<open>time\<close>,
  \<open>device\<close> and \<open>duration\<close>. Dates and times are strings, the duration is a Python int.
\<close>

record task =
  date :: string
  time :: string
  device :: string
  duration :: int

text \<open>
  \<open>_save_tasks\<close> opens the storage file for writing and dumps the whole list; any
  exception is caught and printed. The outcome of the write is an input of the model:
  either the file now holds the dumped list, or the write failed and the file holds
  whatever the failed write left behind.
\<close>

datatype write_outcome = WriteOk | WriteFails "task list option"

datatype py_error = ValueError_max_tasks int

record TaskManager =
  max_tasks :: int
  tasks :: "task list"
  stored :: "task list option"

definition save_tasks :: "write_outcome \<Rightarrow> TaskManager \<Rightarrow> TaskManager" where
  "save_tasks io tm =
     (case io of
        WriteOk \<Rightarrow> tm\<lparr>stored := Some (tasks tm)\<rparr>
      | WriteFails left \<Rightarrow> tm\<lparr>stored := left\<rparr>)"

definition add_task ::
  "write_outcome \<Rightarrow> string \<Rightarrow> string \<Rightarrow> string \<Rightarrow> int \<Rightarrow> TaskManager
     \<Rightarrow> (py_error + unit) \<times> TaskManager" where
  "add_task io d t dev dur tm =
     (if int (length (tasks tm)) \<ge> max_tasks tm
      then (Inl (ValueError_max_tasks (max_tasks tm)), tm)
      else (Inr (),
            save_tasks io
              (tm\<lparr>tasks := tasks tm @ [\<lparr>date = d, time = t, device = dev, duration = dur\<rparr>]\<rparr>)))"

definition get_tasks :: "TaskManager \<Rightarrow> task list" where
  "get_tasks tm = tasks tm"

definition delete_task :: "write_outcome \<Rightarrow> int \<Rightarrow> TaskManager \<Rightarrow> bool \<times> TaskManager" where
  "delete_task io index tm =
     (if 0 \<le> index \<and> index < int (length (tasks tm))
      then (True,
            save_tasks io
              (tm\<lparr>tasks := take (nat index) (tasks tm) @ drop (Suc (nat index)) (tasks tm)\<rparr>))
      else (False, tm))"

section \<open>Relay controller (esp-board/lib/relay_controller.py)\<close>

text \<open>The relays are the pin levels, active low: 0 is on, 1 is off.\<close>

definition relay_on :: "int \<Rightarrow> int list \<Rightarrow> int list" where
  "relay_on channel relays =
     (if 0 \<le> channel \<and> channel < int (length relays) then relays[nat channel := 0] else relays)"

definition relay_off :: "int \<Rightarrow> int list \<Rightarrow> int list" where
  "relay_off channel relays =
     (if 0 \<le> channel \<and> channel < int (length relays) then relays[nat channel := 1] else relays)"

section \<open>Controller (esp-board/main_board.py)\<close>

text \<open>
  \<open>device_status\<close> maps a device name to a boolean (switched devices) or to an angle
  (the servo). \<open>auto_off_timers\<close> maps a device name to a timer object. A timer object is
  a number; \<open>Timer(-1)\<close> allocates the next one. \<open>pending\<close> lists the timers that have
  been initialised and have neither fired nor been deinitialised, each with its period
  in milliseconds and the device name and channel its callback closes over. The timer
  is the work of \<open>machine.Timer\<close>: \<open>init\<close> is taken to accept every period, and the
  steps of the controller are taken one after the other.
\<close>

datatype dev_state = Switched bool | Angle int

record timer_info =
  period :: int
  cb_device :: string
  cb_channel :: int

record ESP32Controller =
  task_manager :: TaskManager
  relay_controller :: "int list"
  device_status :: "string \<rightharpoonup> dev_state"
  auto_off_timers :: "string \<rightharpoonup> nat"
  pending :: "(nat \<times> timer_info) list"
  next_timer :: nat

definition deinit :: "nat \<Rightarrow> ESP32Controller \<Rightarrow> ESP32Controller" where
  "deinit t c = c\<lparr>pending := filter (\<lambda>p. fst p \<noteq> t) (pending c)\<rparr>"

definition set_auto_off_timer ::
  "string \<Rightarrow> int \<Rightarrow> int \<Rightarrow> ESP32Controller \<Rightarrow> ESP32Controller" where
  "set_auto_off_timer device_name channel dur c =
     (let c1 = (case auto_off_timers c device_name of
                  Some old \<Rightarrow> deinit old c
                | None \<Rightarrow> c);
          t = next_timer c1;
          c2 = c1\<lparr>auto_off_timers := (auto_off_timers c1)(device_name \<mapsto> t),
                  next_timer := Suc t\<rparr>
      in c2\<lparr>pending := pending c2 @
               [(t, \<lparr>period = dur * 1000, cb_device = device_name, cb_channel = channel\<rparr>)]\<rparr>)"

text \<open>
  \<open>auto_off_callback\<close> as run when the one-shot timer \<open>t\<close> expires: the timer stops
  being pending, the relay is switched off, the status is set to False and the entry of
  the device in \<open>auto_off_timers\<close> is deleted when there is one.
\<close>

definition auto_off_callback :: "nat \<Rightarrow> ESP32Controller \<Rightarrow> ESP32Controller" where
  "auto_off_callback t c =
     (case map_of (pending c) t of
        None \<Rightarrow> c
      | Some ti \<Rightarrow>
          (let c1 = deinit t c;
               c2 = c1\<lparr>relay_controller := relay_off (cb_channel ti) (relay_controller c1)\<rparr>;
               c3 = c2\<lparr>device_status := (device_status c2)(cb_device ti \<mapsto> Switched False)\<rparr>
           in (if auto_off_timers c3 (cb_device ti) \<noteq> None
               then c3\<lparr>auto_off_timers := (auto_off_timers c3)(cb_device ti := None)\<rparr>
               else c3)))"

subsection \<open>The clock strings of a tick\<close>

fun dec :: "nat \<Rightarrow> string" where
  "dec n = (if n < 10 then [char_of (48 + n)] else dec (n div 10) @ [char_of (48 + n mod 10)])"

declare dec.simps [simp del]

definition pad2 :: "nat \<Rightarrow> string" where
  "pad2 n = (if n < 10 then CHR ''0'' # dec n else dec n)"

record localtime =
  year :: nat
  month :: nat
  mday :: nat
  hour :: nat
  minute :: nat
  second :: nat

definition current_date :: "localtime \<Rightarrow> string" where
  "current_date lt = dec (year lt) @ ''-'' @ pad2 (month lt) @ ''-'' @ pad2 (mday lt)"

definition current_time_str :: "localtime \<Rightarrow> string" where
  "current_time_str lt = pad2 (hour lt) @ '':'' @ pad2 (minute lt)"

definition due :: "localtime \<Rightarrow> task \<Rightarrow> bool" where
  "due lt tk \<longleftrightarrow> date tk = current_date lt \<and> time tk = current_time_str lt"

subsection \<open>check_scheduled_tasks\<close>

definition activate :: "string \<Rightarrow> int \<Rightarrow> int \<Rightarrow> ESP32Controller \<Rightarrow> ESP32Controller" where
  "activate dev channel dur c =
     set_auto_off_timer dev channel dur
       (c\<lparr>relay_controller := relay_on channel (relay_controller c),
          device_status := (device_status c)(dev \<mapsto> Switched True)\<rparr>)"

definition execute_task :: "task \<Rightarrow> ESP32Controller \<Rightarrow> ESP32Controller" where
  "execute_task tk c =
     (if device tk = ''pump1'' then activate ''pump1'' 0 (duration tk) c
      else if device tk = ''pump2'' then activate ''pump2'' 1 (duration tk) c
      else if device tk = ''pump3'' then activate ''pump3'' 2 (duration tk) c
      else if device tk = ''dcmotor'' then activate ''dcmotor'' 3 (duration tk) c
      else c)"

definition run_task :: "write_outcome \<Rightarrow> nat \<Rightarrow> task \<Rightarrow> ESP32Controller \<Rightarrow> ESP32Controller" where
  "run_task io i tk c =
     (let c1 = execute_task tk c
      in c1\<lparr>task_manager := snd (delete_task io (int i) (task_manager c1))\<rparr>)"

fun scan_tasks ::
  "write_outcome \<Rightarrow> localtime \<Rightarrow> (nat \<times> task) list \<Rightarrow> ESP32Controller \<Rightarrow> ESP32Controller" where
  "scan_tasks io lt [] c = c"
| "scan_tasks io lt ((i, tk) # rest) c =
     (if date tk = current_date lt \<and> time tk = current_time_str lt
      then run_task io i tk c
      else scan_tasks io lt rest c)"

definition check_scheduled_tasks ::
  "write_outcome \<Rightarrow> localtime \<Rightarrow> ESP32Controller \<Rightarrow> ESP32Controller" where
  "check_scheduled_tasks io lt c =
     scan_tasks io lt (enumerate 0 (get_tasks (task_manager c))) c"

subsection \<open>Reachable controller states\<close>

text \<open>
  The controller after \<open>__init__\<close>, and the states it reaches by arming a timer,
  by a pending timer expiring, by a scheduler tick and by changes of the task store.
\<close>

definition initial :: "TaskManager \<Rightarrow> int list \<Rightarrow> ESP32Controller" where
  "initial tm relays =
     \<lparr>task_manager = tm, relay_controller = relays,
      device_status = [''pump1'' \<mapsto> Switched False, ''pump2'' \<mapsto> Switched False,
                       ''pump3'' \<mapsto> Switched False, ''dcmotor'' \<mapsto> Switched False,
                       ''servo'' \<mapsto> Angle 90],
      auto_off_timers = Map.empty, pending = [], next_timer = 0\<rparr>"

inductive reachable :: "ESP32Controller \<Rightarrow> bool" where
  r_init: "reachable (initial tm relays)"
| r_arm: "reachable c \<Longrightarrow> reachable (set_auto_off_timer d ch dur c)"
| r_fire: "reachable c \<Longrightarrow> (t, ti) \<in> set (pending c) \<Longrightarrow> reachable (auto_off_callback t c)"
| r_tick: "reachable c \<Longrightarrow> reachable (check_scheduled_tasks io lt c)"
| r_store: "reachable c \<Longrightarrow> reachable (c\<lparr>task_manager := tm\<rparr>)"

definition live :: "string \<Rightarrow> ESP32Controller \<Rightarrow> (nat \<times> timer_info) list" where
  "live d c = filter (\<lambda>p. cb_device (snd p) = d) (pending c)"

definition timers_ok :: "ESP32Controller \<Rightarrow> bool" where
  "timers_ok c \<longleftrightarrow>
     distinct (map fst (pending c)) \<and>
     list_all (\<lambda>p. fst p < next_timer c \<and> auto_off_timers c (cb_device (snd p)) = Some (fst p))
       (pending c)"

subsection \<open>Vocabulary of the statements\<close>

definition known_device :: "string \<Rightarrow> bool" where
  "known_device d \<longleftrightarrow> d = ''pump1'' \<or> d = ''pump2'' \<or> d = ''pump3'' \<or> d = ''dcmotor''"

definition channel_of :: "string \<Rightarrow> int" where
  "channel_of d =
     (if d = ''pump1'' then 0 else if d = ''pump2'' then 1 else if d = ''pump3'' then 2 else 3)"

definition first_due :: "localtime \<Rightarrow> task list \<Rightarrow> nat \<Rightarrow> bool" where
  "first_due lt ts i \<longleftrightarrow> i < length ts \<and> due lt (ts ! i) \<and> (\<forall>j<i. \<not> due lt (ts ! j))"

definition remove_at :: "nat \<Rightarrow> 'a list \<Rightarrow> 'a list" where
  "remove_at i xs = take i xs @ drop (Suc i) xs"

text \<open>The states and inputs of the worked examples.\<close>

definition xmas :: localtime where
  "xmas = \<lparr>year = 2024, month = 12, mday = 25, hour = 14, minute = 30, second = 7\<rparr>"

definition mk_task :: "string \<Rightarrow> string \<Rightarrow> string \<Rightarrow> int \<Rightarrow> task" where
  "mk_task d t dev dur = \<lparr>date = d, time = t, device = dev, duration = dur\<rparr>"

definition store_of :: "task list \<Rightarrow> TaskManager" where
  "store_of ts = \<lparr>max_tasks = 50, tasks = ts, stored = Some ts\<rparr>"

definition board :: "task list \<Rightarrow> ESP32Controller" where
  "board ts = initial (store_of ts) [1, 1, 1, 1]"

definition later :: localtime where
  "later = \<lparr>year = 2024, month = 12, mday = 25, hour = 14, minute = 31, second = 7\<rparr>"

definition ex_tasks :: "task list" where
  "ex_tasks =
     [mk_task ''2024-12-24'' ''14:30'' ''pump3'' 10,
      mk_task ''2024-12-25'' ''14:30'' ''pump1'' 300,
      mk_task ''2024-12-25'' ''14:30'' ''pump2'' 60]"

definition armed_twice :: ESP32Controller where
  "armed_twice = set_auto_off_timer ''pump1'' 0 60 (set_auto_off_timer ''pump1'' 0 300 (board []))"

definition servo_first :: "task list" where
  "servo_first =
     [mk_task ''2024-12-25'' ''14:30'' ''servo'' 30, mk_task ''2024-12-25'' ''14:30'' ''pump2'' 60]"

section \<open>Request router (esp-board/lib/MicroWebServ/microWebSrv.py)\<close>

subsection \<open>Strings as Python handles them\<close>

text \<open>Strings are lists of bytes; case conversion touches the ASCII letters only.\<close>

definition upper_char :: "char \<Rightarrow> char" where
  "upper_char ch =
     (if 97 \<le> (of_char ch :: nat) \<and> (of_char ch :: nat) \<le> 122
      then char_of ((of_char ch :: nat) - 32) else ch)"

definition lower_char :: "char \<Rightarrow> char" where
  "lower_char ch =
     (if 65 \<le> (of_char ch :: nat) \<and> (of_char ch :: nat) \<le> 90
      then char_of ((of_char ch :: nat) + 32) else ch)"

definition upper :: "string \<Rightarrow> string" where
  "upper s = map upper_char s"

definition lower :: "string \<Rightarrow> string" where
  "lower s = map lower_char s"

definition startswith :: "string \<Rightarrow> string \<Rightarrow> bool" where
  "startswith s pre \<longleftrightarrow> take (length pre) s = pre"

definition endswith :: "string \<Rightarrow> string \<Rightarrow> bool" where
  "endswith s suf \<longleftrightarrow> length suf \<le> length s \<and> drop (length s - length suf) s = suf"

text \<open>\<open>sub in s\<close>.\<close>

fun contains :: "string \<Rightarrow> string \<Rightarrow> bool" where
  "contains [] sub = (sub = [])"
| "contains (x # xs) sub = (take (length sub) (x # xs) = sub \<or> contains xs sub)"

text \<open>\<open>s.split(sep)\<close> for a separator of one character.\<close>

fun split_on :: "char \<Rightarrow> string \<Rightarrow> string list" where
  "split_on sep [] = [[]]"
| "split_on sep (x # xs) =
     (if x = sep then [] # split_on sep xs
      else (case split_on sep xs of
              [] \<Rightarrow> [[x]]
            | w # ws \<Rightarrow> (x # w) # ws))"

text \<open>
  \<open>s.replace(old, new)\<close> for a non-empty \<open>old\<close>: one pass from the left over
  non-overlapping occurrences; the text put in is not scanned again.
\<close>

function py_replace :: "string \<Rightarrow> string \<Rightarrow> string \<Rightarrow> string" where
  "py_replace old new s =
     (if s = [] \<or> old = [] then s
      else if take (length old) s = old then new @ py_replace old new (drop (length old) s)
      else hd s # py_replace old new (tl s))"
  by pat_completeness auto
termination
  by (relation "measure (\<lambda>(old, new, s). length s)") auto

declare py_replace.simps [simp del]

text \<open>
  \<open>int(value)\<close> on ASCII text, as CPython reads it: blanks around the number are
  dropped, a sign may lead, and the digits may be grouped by single underscores.
  \<open>None\<close> stands for the ValueError.
\<close>

definition is_digit :: "char \<Rightarrow> bool" where
  "is_digit ch \<longleftrightarrow> 48 \<le> (of_char ch :: nat) \<and> (of_char ch :: nat) \<le> 57"

definition is_space :: "char \<Rightarrow> bool" where
  "is_space ch \<longleftrightarrow> (of_char ch :: nat) = 32 \<or> (9 \<le> (of_char ch :: nat) \<and> (of_char ch :: nat) \<le> 13)"

definition strip :: "string \<Rightarrow> string" where
  "strip s = rev (dropWhile is_space (rev (dropWhile is_space s)))"

fun digits_ok :: "string \<Rightarrow> bool" where
  "digits_ok [] = False"
| "digits_ok [d] = is_digit d"
| "digits_ok (d # e # r) =
     (is_digit d \<and> (if e = CHR ''_'' then digits_ok r else digits_ok (e # r)))"

definition digits_value :: "string \<Rightarrow> int" where
  "digits_value s =
     foldl (\<lambda>acc ch. 10 * acc + (int (of_char ch) - 48)) 0 (filter (\<lambda>ch. ch \<noteq> CHR ''_'') s)"

definition unsigned_int :: "string \<Rightarrow> int option" where
  "unsigned_int s = (if digits_ok s then Some (digits_value s) else None)"

definition py_int :: "string \<Rightarrow> int option" where
  "py_int v =
     (case strip v of
        [] \<Rightarrow> None
      | ch # r \<Rightarrow>
          (if ch = CHR ''+'' then unsigned_int r
           else if ch = CHR ''-'' then map_option uminus (unsigned_int r)
           else unsigned_int (ch # r)))"

subsection \<open>Routes\<close>

text \<open>
  The regular expression of a route is a sequence of pieces, each opened by a slash:
  \<open>/(\w*)\<close> for a placeholder, the slash and the segment's own text otherwise; the
  closing \<open>$\<close> ends the sequence. The compiled expression is kept as the list of its
  pieces. A segment's text is put into the expression as it is, so the list reads the
  expression right when no literal segment holds a character that is special in a regular
  expression (\<open>plain_route\<close> below).
\<close>

datatype rx_piece = RLit string | RCap

fun route_pieces :: "string list \<Rightarrow> string list \<times> rx_piece list" where
  "route_pieces [] = ([], [])"
| "route_pieces (s # ss) =
     (let (names, rx) = route_pieces ss
      in if startswith s ''<'' \<and> endswith s ''>'' then (butlast (tl s) # names, RCap # rx)
         else if s \<noteq> [] then (names, RLit s # rx)
         else (names, rx))"

record ('h, 'r) MicroWebSrvRoute =
  route :: string
  route_method :: string
  func :: 'h
  routeArgNames :: "string list"
  routeRegex :: 'r

definition compile_route :: "string \<times> string \<times> 'h \<Rightarrow> ('h, rx_piece list) MicroWebSrvRoute" where
  "compile_route rmf =
     (case rmf of (r, m, f) \<Rightarrow>
        (let (names, rx) = route_pieces (split_on CHR ''/'' r)
         in \<lparr>route = r, route_method = m, func = f, routeArgNames = names, routeRegex = rx\<rparr>))"

text \<open>The route table the constructor builds from \<open>routeHandlers\<close>.\<close>

definition make_routes ::
  "(string \<times> string \<times> 'h) list \<Rightarrow> ('h, rx_piece list) MicroWebSrvRoute list" where
  "make_routes routeHandlers = map compile_route routeHandlers"

text \<open>
  \<open>routeRegex.match(resUrl)\<close>: the text is matched from its start; \<open>\w*\<close> takes the
  longest run of word characters, and since the next piece opens with a slash or is the
  end, no shorter run can match. The result is the list of the groups.
\<close>

definition is_word :: "char \<Rightarrow> bool" where
  "is_word ch \<longleftrightarrow>
     is_digit ch \<or> ch = CHR ''_'' \<or>
     (65 \<le> (of_char ch :: nat) \<and> (of_char ch :: nat) \<le> 90) \<or>
     (97 \<le> (of_char ch :: nat) \<and> (of_char ch :: nat) \<le> 122)"

fun rx_match :: "rx_piece list \<Rightarrow> string \<Rightarrow> string list option" where
  "rx_match [] s = (if s = [] then Some [] else None)"
| "rx_match (RLit l # rx) s =
     (if take (Suc (length l)) s = CHR ''/'' # l then rx_match rx (drop (Suc (length l)) s)
      else None)"
| "rx_match (RCap # rx) s =
     (case s of
        [] \<Rightarrow> None
      | ch # t \<Rightarrow>
          (if ch = CHR ''/''
           then map_option ((#) (takeWhile is_word t)) (rx_match rx (dropWhile is_word t))
           else None))"

datatype arg_value = IntArg int | StrArg string

definition coerce :: "string \<Rightarrow> arg_value" where
  "coerce v = (case py_int v of Some n \<Rightarrow> IntArg n | None \<Rightarrow> StrArg v)"

datatype web_error = IndexError | HandlerException | OSError

text \<open>
  The loop over \<open>enumerate(routeArgNames)\<close>: \<open>m.group(i+1)\<close> raises IndexError when the
  match has fewer groups than the route has names.
\<close>

fun bind_args ::
  "string list \<Rightarrow> string list \<Rightarrow> (string \<rightharpoonup> arg_value) \<Rightarrow> web_error + (string \<rightharpoonup> arg_value)" where
  "bind_args [] gs args = Inr args"
| "bind_args (n # ns) [] args = Inl IndexError"
| "bind_args (n # ns) (g # gs) args = bind_args ns gs (args(n \<mapsto> coerce g))"

definition route_answer ::
  "('h, 'r) MicroWebSrvRoute \<Rightarrow> string list
     \<Rightarrow> web_error + ('h option \<times> (string \<rightharpoonup> arg_value) option)" where
  "route_answer rh gs =
     (if routeArgNames rh \<noteq> []
      then (case bind_args (routeArgNames rh) gs Map.empty of
              Inl e \<Rightarrow> Inl e
            | Inr args \<Rightarrow> Inr (Some (func rh), Some args))
      else Inr (Some (func rh), None))"

fun route_loop ::
  "('r \<Rightarrow> string \<Rightarrow> string list option) \<Rightarrow> ('h, 'r) MicroWebSrvRoute list \<Rightarrow> string \<Rightarrow> string
     \<Rightarrow> web_error + ('h option \<times> (string \<rightharpoonup> arg_value) option)" where
  "route_loop re [] resUrl meth = Inr (None, None)"
| "route_loop re (rh # rhs) resUrl meth =
     (if route_method rh = meth
      then (case re (routeRegex rh) resUrl of
              Some gs \<Rightarrow> route_answer rh gs
            | None \<Rightarrow> route_loop re rhs resUrl meth)
      else route_loop re rhs resUrl meth)"

definition trim_slash :: "string \<Rightarrow> string" where
  "trim_slash resUrl = (if endswith resUrl ''/'' then butlast resUrl else resUrl)"

text \<open>
  \<open>GetRouteHandler\<close>; \<open>re\<close> is the matching of a compiled expression against a text,
  the work of the \<open>re\<close> module.
\<close>

definition GetRouteHandler ::
  "('r \<Rightarrow> string \<Rightarrow> string list option) \<Rightarrow> ('h, 'r) MicroWebSrvRoute list \<Rightarrow> string \<Rightarrow> string
     \<Rightarrow> web_error + ('h option \<times> (string \<rightharpoonup> arg_value) option)" where
  "GetRouteHandler re routeHandlers resUrl meth =
     (if routeHandlers \<noteq> []
      then route_loop re routeHandlers (trim_slash resUrl) (upper meth)
      else Inr (None, None))"

text \<open>A route and a request path match the method and the expression.\<close>

definition route_matches ::
  "('r \<Rightarrow> string \<Rightarrow> string list option) \<Rightarrow> string \<Rightarrow> string \<Rightarrow> ('h, 'r) MicroWebSrvRoute \<Rightarrow> bool" where
  "route_matches re resUrl meth rh \<longleftrightarrow>
     route_method rh = upper meth \<and> re (routeRegex rh) (trim_slash resUrl) \<noteq> None"

subsection \<open>Static files\<close>

definition indexPages :: "string list" where
  "indexPages =
     [''index.pyhtml'', ''index.html'', ''index.htm'',
      ''default.pyhtml'', ''default.html'', ''default.htm'']"

text \<open>\<open>_physPathFromURLPath\<close>; \<open>fileExists\<close> is the file system as \<open>stat\<close> sees it.\<close>

definition physPathFromURLPath :: "(string \<Rightarrow> bool) \<Rightarrow> string \<Rightarrow> string \<Rightarrow> string option" where
  "physPathFromURLPath fileExists webPath urlPath =
     (if urlPath = ''/''
      then find fileExists (map (\<lambda>idxPage. webPath @ ''/'' @ idxPage) indexPages)
      else (let physPath = webPath @ py_replace ''../'' ''/'' urlPath
            in if fileExists physPath then Some physPath else None))"

subsection \<open>Vocabulary of the statements about routes\<close>

text \<open>
  The segments of a request path: the texts between its slashes, when it is empty or
  opens with a slash.
\<close>

fun segments :: "string \<Rightarrow> string list option" where
  "segments [] = Some []"
| "segments (ch # t) = (if ch = CHR ''/'' then Some (split_on CHR ''/'' t) else None)"

fun seg_matches :: "rx_piece \<Rightarrow> string \<Rightarrow> bool" where
  "seg_matches (RLit l) seg = (seg = l)"
| "seg_matches RCap seg = list_all is_word seg"

definition captures :: "rx_piece list \<Rightarrow> string list \<Rightarrow> string list" where
  "captures rx segs = map snd (filter (\<lambda>ps. fst ps = RCap) (zip rx segs))"

definition args_of :: "string list \<Rightarrow> string list \<Rightarrow> (string \<rightharpoonup> arg_value)" where
  "args_of names vals = map_of (rev (zip names (map coerce vals)))"

definition pieces_of :: "string \<Rightarrow> rx_piece list" where
  "pieces_of r = snd (route_pieces (split_on CHR ''/'' r))"

definition names_of :: "string \<Rightarrow> string list" where
  "names_of r = fst (route_pieces (split_on CHR ''/'' r))"

text \<open>
  A route is plain when none of its literal segments holds a character that is special
  in a regular expression; a text is an ASCII line when it holds ASCII characters only
  and no line feed.
\<close>

definition plain_char :: "char \<Rightarrow> bool" where
  "plain_char ch \<longleftrightarrow> ch \<notin> set ''.^$*+?{}[]|()'' \<and> (of_char ch :: nat) \<noteq> 92"

definition plain_route :: "string \<Rightarrow> bool" where
  "plain_route r \<longleftrightarrow>
     list_all (\<lambda>s. (startswith s ''<'' \<and> endswith s ''>'') \<or> list_all plain_char s)
       (split_on CHR ''/'' r)"

definition ascii_line :: "string \<Rightarrow> bool" where
  "ascii_line s \<longleftrightarrow> list_all (\<lambda>ch. (of_char ch :: nat) < 128 \<and> (of_char ch :: nat) \<noteq> 10) s"

definition ex_routes :: "(string \<times> string \<times> nat) list" where
  "ex_routes = [(''/api/<x>'', ''GET'', 1), (''/api/status'', ''GET'', 2)]"

text \<open>The path with the given segments, each behind a slash.\<close>

definition path_of :: "string list \<Rightarrow> string" where
  "path_of segs = concat (map ((#) CHR ''/'') segs)"

definition relay_route :: string where
  "relay_route = ''/relay/<channel>/<action>''"

section \<open>Connection handling (esp-board/lib/MicroWebServ/microWebSrv.py)\<close>

subsection \<open>Static content\<close>

definition mimeTypes :: "(string \<times> string) list" where
  "mimeTypes =
     [(''.txt'', ''text/plain''), (''.htm'', ''text/html''), (''.html'', ''text/html''),
      (''.css'', ''text/css''), (''.csv'', ''text/csv''), (''.js'', ''application/javascript''),
      (''.xml'', ''application/xml''), (''.xhtml'', ''application/xhtml+xml''),
      (''.json'', ''application/json''), (''.zip'', ''application/zip''),
      (''.pdf'', ''application/pdf''), (''.ts'', ''application/typescript''),
      (''.woff'', ''font/woff''), (''.woff2'', ''font/woff2''), (''.ttf'', ''font/ttf''),
      (''.otf'', ''font/otf''), (''.jpg'', ''image/jpeg''), (''.jpeg'', ''image/jpeg''),
      (''.png'', ''image/png''), (''.gif'', ''image/gif''), (''.svg'', ''image/svg+xml''),
      (''.ico'', ''image/x-icon'')]"

definition GetMimeTypeFromFilename :: "string \<Rightarrow> string option" where
  "GetMimeTypeFromFilename filename =
     map_option snd (find (\<lambda>ext. endswith (lower filename) (fst ext)) mimeTypes)"

definition isPyHTMLFile :: "string \<Rightarrow> bool" where
  "isPyHTMLFile filename \<longleftrightarrow> endswith (lower filename) ''.pyhtml''"

subsection \<open>One connection\<close>

text \<open>
  What is seen of a connection: the status codes of the responses written on it, in
  order; how often \<open>close\<close> was called on the socket and on the socket file (when the
  file is an object of its own); whether the socket was given to a \<open>MicroWebSocket\<close>.
\<close>

record conn =
  written :: "nat list"
  socket_closes :: nat
  socketfile_closes :: nat
  handed_over :: bool

definition fresh_conn :: conn where
  "fresh_conn = \<lparr>written = [], socket_closes = 0, socketfile_closes = 0, handed_over = False\<rparr>"

definition write_code :: "nat \<Rightarrow> conn \<Rightarrow> conn" where
  "write_code code c = c\<lparr>written := written c @ [code]\<rparr>"

text \<open>
  A route handler is called with the route arguments, or without any; it writes
  responses and returns, or raises (\<open>True\<close> in the second place).
\<close>

type_synonym handler = "(string \<rightharpoonup> arg_value) option \<Rightarrow> nat list \<times> bool"

record server =
  srv_routeHandlers :: "(handler, rx_piece list) MicroWebSrvRoute list"
  webPath :: string
  notFoundUrl :: "string option"
  LetCacheStaticContentLevel :: int
  websocket_accepted :: bool

text \<open>
  What the socket and the file system give to one connection: whether the socket has
  \<open>readline\<close> (then the socket file is the socket itself); whether \<open>settimeout\<close> or
  \<open>makefile\<close> raise in the constructor; the method and the path \<open>_parseFirstLine\<close>
  reads, when it reads them; the outcome of \<open>_parseHeader\<close> and the headers it
  stored; which files exist; what \<open>WriteResponsePyHTMLFile\<close> and \<open>WriteResponseFile\<close>
  write and whether the former raises; whether the \<open>MicroWebSocket\<close> constructor
  raises; whether closing the socket file raises.
\<close>

datatype header_result = HeaderOk | HeaderBad | HeaderRaises

record request =
  has_readline :: bool
  setup_raises :: bool
  first_line :: "(string \<times> string) option"
  header :: header_result
  headers :: "string \<rightharpoonup> string"
  file_exists :: "string \<Rightarrow> bool"
  pyhtml_writes :: "nat list \<times> bool"
  file_writes :: "nat list"
  websocket_raises :: bool
  socketfile_close_raises :: bool

definition headers_get :: "(string \<rightharpoonup> string) \<Rightarrow> string \<Rightarrow> string \<Rightarrow> string" where
  "headers_get hs k dflt = (case hs k of Some v \<Rightarrow> v | None \<Rightarrow> dflt)"

definition getConnUpgrade :: "(string \<rightharpoonup> string) \<Rightarrow> string option" where
  "getConnUpgrade hs =
     (if contains (lower (headers_get hs ''connection'' [])) ''upgrade''
      then Some (lower (headers_get hs ''upgrade'' []))
      else None)"

definition WriteResponseNotFound :: "server \<Rightarrow> conn \<Rightarrow> conn" where
  "WriteResponseNotFound srv c =
     (case notFoundUrl srv of
        Some url \<Rightarrow> (if url \<noteq> [] then write_code 302 c else write_code 404 c)
      | None \<Rightarrow> write_code 404 c)"

text \<open>
  The flow of the \<open>try\<close> block of \<open>_processRequest\<close>: it ends, or it raises, or it
  leaves the function by \<open>return\<close>.
\<close>

datatype flow = Normal | Raised | Returned

definition serve_static :: "server \<Rightarrow> request \<Rightarrow> string \<Rightarrow> conn \<Rightarrow> flow \<times> conn" where
  "serve_static srv rq resPath c =
     (case physPathFromURLPath (file_exists rq) (webPath srv) resPath of
        None \<Rightarrow> (Normal, WriteResponseNotFound srv c)
      | Some filepath \<Rightarrow>
          (if filepath = [] then (Normal, WriteResponseNotFound srv c)
           else if isPyHTMLFile filepath
           then (if snd (pyhtml_writes rq) then Raised else Normal,
                 c\<lparr>written := written c @ fst (pyhtml_writes rq)\<rparr>)
           else (case GetMimeTypeFromFilename filepath of
                   None \<Rightarrow> (Normal, write_code 403 c)
                 | Some contentType \<Rightarrow>
                     (if LetCacheStaticContentLevel srv > 0
                      then (if LetCacheStaticContentLevel srv > 1 \<and>
                               headers rq ''if-modified-since'' \<noteq> None
                            then (Normal, write_code 304 c)
                            else (Normal, c\<lparr>written := written c @ file_writes rq\<rparr>))
                      else (Normal, c\<lparr>written := written c @ file_writes rq\<rparr>)))))"

definition dispatch :: "server \<Rightarrow> request \<Rightarrow> string \<Rightarrow> string \<Rightarrow> conn \<Rightarrow> flow \<times> conn" where
  "dispatch srv rq meth resPath c =
     (case GetRouteHandler rx_match (srv_routeHandlers srv) resPath meth of
        Inl e \<Rightarrow> (Raised, c)
      | Inr found \<Rightarrow>
          (case fst found of
             Some routeHandler \<Rightarrow>
               (if snd (routeHandler (snd found)) then Raised else Normal,
                c\<lparr>written := written c @ fst (routeHandler (snd found))\<rparr>)
           | None \<Rightarrow>
               (if upper meth = ''GET'' then serve_static srv rq resPath c
                else (Normal, write_code 405 c))))"

definition try_block :: "server \<Rightarrow> request \<Rightarrow> conn \<Rightarrow> flow \<times> conn" where
  "try_block srv rq c =
     (case first_line rq of
        None \<Rightarrow> (Normal, c)
      | Some line \<Rightarrow>
          (case header rq of
             HeaderRaises \<Rightarrow> (Raised, c)
           | HeaderBad \<Rightarrow> (Normal, write_code 400 c)
           | HeaderOk \<Rightarrow>
               (let upg = getConnUpgrade (headers rq)
                in if upg = None \<or> upg = Some []
                   then dispatch srv rq (fst line) (snd line) c
                   else if upg = Some ''websocket'' \<and> websocket_accepted srv
                   then (if websocket_raises rq then (Raised, c)
                         else (Returned, c\<lparr>handed_over := True\<rparr>))
                   else (Normal, write_code 501 c))))"

definition close_block :: "request \<Rightarrow> conn \<Rightarrow> conn" where
  "close_block rq c =
     (if \<not> has_readline rq
      then (if socketfile_close_raises rq
            then c\<lparr>socketfile_closes := Suc (socketfile_closes c)\<rparr>
            else c\<lparr>socketfile_closes := Suc (socketfile_closes c),
                   socket_closes := Suc (socket_closes c)\<rparr>)
      else c\<lparr>socket_closes := Suc (socket_closes c)\<rparr>)"

text \<open>
  \<open>_processRequest\<close>. The result is \<open>Inr\<close> when the function ends and \<open>Inl\<close> when
  an exception leaves it.
\<close>

definition processRequest :: "server \<Rightarrow> request \<Rightarrow> conn \<Rightarrow> web_error + conn" where
  "processRequest srv rq c =
     (case try_block srv rq c of
        (Returned, c1) \<Rightarrow> Inr c1
      | (Raised, c1) \<Rightarrow> Inr (close_block rq (write_code 500 c1))
      | (Normal, c1) \<Rightarrow> Inr (close_block rq c1))"

text \<open>The constructor of \<open>_client\<close>, which ends by calling \<open>_processRequest\<close>.\<close>

definition client :: "server \<Rightarrow> request \<Rightarrow> web_error + conn" where
  "client srv rq =
     (if setup_raises rq then Inl OSError else processRequest srv rq fresh_conn)"

text \<open>
  \<open>_serverProcess\<close> over the outcomes of its calls of \<open>accept\<close>, as far as they are
  given: an exception with its first argument, or a connection. The loop is left by the
  break at error 113 or by an exception out of \<open>_client\<close>; otherwise it goes on
  waiting. With it come the connections handled so far.
\<close>

datatype accepted = AcceptRaises "int option" | Accepted request

datatype loop_state = Waiting | Broken | Crashed web_error

fun serverProcess :: "server \<Rightarrow> accepted list \<Rightarrow> conn list \<Rightarrow> loop_state \<times> conn list" where
  "serverProcess srv [] handled = (Waiting, handled)"
| "serverProcess srv (AcceptRaises arg # evs) handled =
     (if arg = Some 113 then (Broken, handled) else serverProcess srv evs handled)"
| "serverProcess srv (Accepted rq # evs) handled =
     (case client srv rq of
        Inl e \<Rightarrow> (Crashed e, handled)
      | Inr c \<Rightarrow> serverProcess srv evs (handled @ [c]))"

subsection \<open>Vocabulary of the statements about connections\<close>

text \<open>
  The request is an upgrade to a websocket that the server takes: the first line and the
  headers were read, the headers ask for it, a callback is set and the \<open>MicroWebSocket\<close>
  is built without an exception.
\<close>

definition ws_handover :: "server \<Rightarrow> request \<Rightarrow> bool" where
  "ws_handover srv rq \<longleftrightarrow>
     first_line rq \<noteq> None \<and> header rq = HeaderOk \<and>
     getConnUpgrade (headers rq) = Some ''websocket'' \<and>
     websocket_accepted srv \<and> \<not> websocket_raises rq"

definition plain_request :: "string \<Rightarrow> string \<Rightarrow> request" where
  "plain_request meth resPath =
     \<lparr>has_readline = True, setup_raises = False, first_line = Some (meth, resPath),
      header = HeaderOk, headers = Map.empty, file_exists = (\<lambda>p. False),
      pyhtml_writes = ([], False), file_writes = [200], websocket_raises = False,
      socketfile_close_raises = False\<rparr>"

definition ws_request :: request where
  "ws_request =
     (plain_request ''GET'' ''/ws'')
       \<lparr>headers := [''connection'' \<mapsto> ''Upgrade'', ''upgrade'' \<mapsto> ''WebSocket'']\<rparr>"

definition boom :: handler where
  "boom args = ([], True)"

definition ok_handler :: handler where
  "ok_handler args = ([200], False)"

definition ex_server :: server where
  "ex_server =
     \<lparr>srv_routeHandlers = make_routes [(''/boom'', ''GET'', boom), (''/status'', ''GET'', ok_handler)],
      webPath = ''/flash/www'', notFoundUrl = None, LetCacheStaticContentLevel = 2,
      websocket_accepted = True\<rparr>"

section \<open>Properties of the scheduler and the timers\<close>

lemma dec_small: "n < 10 \<Longrightarrow> dec n = [char_of (48 + n)]"
  by (simp add: dec.simps)

lemma scan_first:
  "i < length xs \<Longrightarrow> due lt (xs ! i) \<Longrightarrow> \<forall>j<i. \<not> due lt (xs ! j) \<Longrightarrow>
   scan_tasks io lt (enumerate n xs) c = run_task io (n + i) (xs ! i) c"
proof (induction xs arbitrary: n i)
  case Nil
  then show ?case by simp
next
  case (Cons x xs)
  show ?case
  proof (cases i)
    case 0
    with Cons.prems show ?thesis by (simp add: due_def)
  next
    case (Suc k)
    with Cons.prems have nx: "\<not> due lt x" by auto
    from Suc Cons.prems have k: "k < length xs" "due lt (xs ! k)" "\<forall>j<k. \<not> due lt (xs ! j)"
      by auto
    from Cons.IH [OF k, of "Suc n"] nx Suc show ?thesis
      by (auto simp: due_def)
  qed
qed

lemma scan_none:
  "\<forall>tk\<in>set xs. \<not> due lt tk \<Longrightarrow> scan_tasks io lt (enumerate n xs) c = c"
  by (induction xs arbitrary: n) (auto simp: due_def)

lemma timers_ok_initial: "timers_ok (initial tm relays)"
  by (simp add: timers_ok_def initial_def)

lemma timers_ok_arm:
  assumes "timers_ok c"
  shows "timers_ok (set_auto_off_timer d ch dur c)"
  using assms
  by (auto simp: timers_ok_def set_auto_off_timer_def deinit_def Let_def list_all_iff
           distinct_map_filter split: option.splits)

lemma live_arm:
  assumes "timers_ok c"
  shows "live d (set_auto_off_timer d ch dur c) =
         [(next_timer c, \<lparr>period = dur * 1000, cb_device = d, cb_channel = ch\<rparr>)]"
  using assms
  by (auto simp: live_def timers_ok_def set_auto_off_timer_def deinit_def Let_def list_all_iff
           filter_empty_conv split: option.splits)

lemma timers_ok_fire:
  assumes "timers_ok c"
  shows "timers_ok (auto_off_callback t c)"
proof (cases "map_of (pending c) t")
  case None
  with assms show ?thesis by (simp add: auto_off_callback_def)
next
  case (Some ti)
  then have mem: "(t, ti) \<in> set (pending c)" by (rule map_of_SomeD)
  with assms have own: "auto_off_timers c (cb_device ti) = Some t"
    by (auto simp: timers_ok_def list_all_iff)
  have other: "cb_device (snd p) \<noteq> cb_device ti" if "p \<in> set (pending c)" "fst p \<noteq> t" for p
    using that assms own by (auto simp: timers_ok_def list_all_iff)
  show ?thesis
    using assms Some own other
    by (auto simp: timers_ok_def auto_off_callback_def deinit_def Let_def list_all_iff
             distinct_map_filter)
qed

lemma timers_ok_store: "timers_ok (c\<lparr>task_manager := tm\<rparr>) = timers_ok c"
  by (simp add: timers_ok_def)

lemma timers_ok_execute:
  assumes "timers_ok c"
  shows "timers_ok (execute_task tk c)"
proof -
  have a: "timers_ok (activate d ch dur c)" for d ch dur
    unfolding activate_def
    by (rule timers_ok_arm) (use assms in \<open>simp add: timers_ok_def\<close>)
  show ?thesis by (simp add: execute_task_def a assms)
qed

lemma timers_ok_run:
  assumes "timers_ok c"
  shows "timers_ok (run_task io i tk c)"
  using timers_ok_execute [OF assms, of tk]
  by (simp add: run_task_def Let_def timers_ok_store)

lemma timers_ok_scan:
  assumes "timers_ok c"
  shows "timers_ok (scan_tasks io lt xs c)"
  using assms by (induction xs) (auto simp: timers_ok_run)

lemma timers_ok_tick:
  assumes "timers_ok c"
  shows "timers_ok (check_scheduled_tasks io lt c)"
  using assms by (simp add: check_scheduled_tasks_def timers_ok_scan)

lemma reachable_timers_ok: "reachable c \<Longrightarrow> timers_ok c"
  by (induction rule: reachable.induct)
     (simp_all add: timers_ok_initial timers_ok_arm timers_ok_fire timers_ok_tick timers_ok_store)

lemma live_le_one:
  assumes "timers_ok c"
  shows "length (live d c) \<le> 1"
proof -
  have own: "auto_off_timers c d = Some (fst p)" if "p \<in> set (live d c)" for p
    using that assms by (auto simp: live_def timers_ok_def list_all_iff)
  have dist: "distinct (map fst (live d c))"
    using assms by (simp add: live_def timers_ok_def distinct_map_filter)
  show ?thesis
  proof (cases "live d c")
    case Nil
    then show ?thesis by simp
  next
    case (Cons p ps)
    show ?thesis
    proof (cases ps)
      case Nil
      with Cons show ?thesis by simp
    next
      case (Cons q qs)
      with \<open>live d c = p # ps\<close> have l: "live d c = p # q # qs" by simp
      from own [of p] own [of q] l have "fst p = fst q" by simp
      with dist l show ?thesis by simp
    qed
  qed
qed

lemma fire_effect:
  assumes "timers_ok c" "(t, ti) \<in> set (pending c)"
  shows "device_status (auto_off_callback t c) (cb_device ti) = Some (Switched False)"
    and "auto_off_timers (auto_off_callback t c) (cb_device ti) = None"
    and "live (cb_device ti) (auto_off_callback t c) = []"
    and "t \<notin> fst ` set (pending (auto_off_callback t c))"
proof -
  from assms have m: "map_of (pending c) t = Some ti"
    by (simp add: timers_ok_def)
  from assms have own: "auto_off_timers c (cb_device ti) = Some t"
    by (auto simp: timers_ok_def list_all_iff)
  have other: "fst p = t" if "p \<in> set (pending c)" "cb_device (snd p) = cb_device ti" for p
    using that assms own by (auto simp: timers_ok_def list_all_iff)
  show "device_status (auto_off_callback t c) (cb_device ti) = Some (Switched False)"
    using m own by (simp add: auto_off_callback_def deinit_def Let_def)
  show "auto_off_timers (auto_off_callback t c) (cb_device ti) = None"
    using m own by (simp add: auto_off_callback_def deinit_def Let_def)
  show "live (cb_device ti) (auto_off_callback t c) = []"
    using m own other by (auto simp: auto_off_callback_def deinit_def Let_def live_def filter_empty_conv)
  show "t \<notin> fst ` set (pending (auto_off_callback t c))"
    using m own by (auto simp: auto_off_callback_def deinit_def Let_def)
qed

lemma xmas_date: "current_date xmas = ''2024-12-25''"
  by code_simp

lemma xmas_time: "current_time_str xmas = ''14:30''"
  by code_simp

lemma tick_first:
  assumes "first_due lt (tasks (task_manager c)) i"
  shows "check_scheduled_tasks io lt c = run_task io i (tasks (task_manager c) ! i) c"
  using assms scan_first [of i "tasks (task_manager c)" lt io 0 c]
  by (simp add: check_scheduled_tasks_def get_tasks_def first_due_def)

lemma tick_none:
  assumes "\<forall>tk\<in>set (tasks (task_manager c)). \<not> due lt tk"
  shows "check_scheduled_tasks io lt c = c"
  using assms by (simp add: check_scheduled_tasks_def get_tasks_def scan_none)

lemma run_task_tasks:
  assumes "i < length (tasks (task_manager c))"
  shows "tasks (task_manager (run_task io i tk c)) = remove_at i (tasks (task_manager c))"
proof -
  have tm: "task_manager (execute_task tk c) = task_manager c"
    by (simp add: execute_task_def activate_def set_auto_off_timer_def deinit_def Let_def
             split: option.splits)
  show ?thesis
    using assms
    by (cases io) (simp_all add: run_task_def Let_def tm delete_task_def save_tasks_def remove_at_def)
qed

lemma activate_effect:
  "device_status (activate d ch dur c) = (device_status c)(d \<mapsto> Switched True)"
  "auto_off_timers (activate d ch dur c) = (auto_off_timers c)(d \<mapsto> next_timer c)"
  "(next_timer c, \<lparr>period = dur * 1000, cb_device = d, cb_channel = ch\<rparr>)
     \<in> set (pending (activate d ch dur c))"
  "relay_controller (activate d ch dur c) = relay_on ch (relay_controller c)"
  by (simp_all add: activate_def set_auto_off_timer_def deinit_def Let_def split: option.splits)

lemma execute_known:
  assumes "known_device (device tk)"
  shows "execute_task tk c = activate (device tk) (channel_of (device tk)) (duration tk) c"
  using assms by (auto simp: execute_task_def known_device_def channel_of_def)

lemma execute_unknown:
  assumes "\<not> known_device (device tk)"
  shows "execute_task tk c = c"
  using assms by (simp add: execute_task_def known_device_def)

lemma run_task_fields:
  "device_status (run_task io i tk c) = device_status (execute_task tk c)"
  "auto_off_timers (run_task io i tk c) = auto_off_timers (execute_task tk c)"
  "pending (run_task io i tk c) = pending (execute_task tk c)"
  "relay_controller (run_task io i tk c) = relay_controller (execute_task tk c)"
  "next_timer (run_task io i tk c) = next_timer (execute_task tk c)"
  by (simp_all add: run_task_def Let_def)

lemma ex_first_due: "first_due xmas ex_tasks (Suc 0)"
  by (simp add: first_due_def due_def ex_tasks_def mk_task_def xmas_date xmas_time)

lemma later_time: "current_time_str later = ''14:31''"
  by code_simp

lemma later_date: "current_date later = ''2024-12-25''"
  by code_simp

lemma ex_none_later: "\<forall>tk\<in>set ex_tasks. \<not> due later tk"
  by (simp add: due_def ex_tasks_def mk_task_def later_date later_time)

lemma board_fields:
  "tasks (task_manager (board ts)) = ts"
  "device_status (board ts) =
     [''pump1'' \<mapsto> Switched False, ''pump2'' \<mapsto> Switched False,
      ''pump3'' \<mapsto> Switched False, ''dcmotor'' \<mapsto> Switched False, ''servo'' \<mapsto> Angle 90]"
  "auto_off_timers (board ts) = Map.empty"
  "pending (board ts) = []"
  "next_timer (board ts) = 0"
  "relay_controller (board ts) = [1, 1, 1, 1]"
  by (simp_all add: board_def initial_def store_of_def)

lemma next_timer_arm: "next_timer (set_auto_off_timer d ch dur c) = Suc (next_timer c)"
  by (simp add: set_auto_off_timer_def deinit_def Let_def split: option.splits)

lemma timers_ok_switch:
  "timers_ok (c\<lparr>relay_controller := r, device_status := s\<rparr>) = timers_ok c"
  by (simp add: timers_ok_def)

lemma live_activate:
  assumes "timers_ok c"
  shows "live d (activate d ch dur c) =
         [(next_timer c, \<lparr>period = dur * 1000, cb_device = d, cb_channel = ch\<rparr>)]"
proof -
  let ?c = "c\<lparr>relay_controller := relay_on ch (relay_controller c),
               device_status := (device_status c)(d \<mapsto> Switched True)\<rparr>"
  have "timers_ok ?c" using assms by (simp add: timers_ok_switch)
  from live_arm [OF this, of d ch dur] show ?thesis by (simp add: activate_def)
qed

lemma live_run_task: "live d (run_task io i tk c) = live d (execute_task tk c)"
  by (simp add: live_def run_task_fields)

lemma armed_twice_reachable: "reachable armed_twice"
  unfolding armed_twice_def board_def by (intro reachable.r_arm reachable.r_init)

lemma armed_twice_pending:
  "pending armed_twice = [(Suc 0, \<lparr>period = 60000, cb_device = ''pump1'', cb_channel = 0\<rparr>)]"
  by (simp add: armed_twice_def set_auto_off_timer_def deinit_def Let_def board_fields)

section \<open>Claims about the scheduler, the timers and the task store\<close>

text \<open>
  C1 (as amended). On a tick, when the task list holds a task due at the current date and
  minute and the first such task names one of pump1, pump2, pump3 and dcmotor, the tick
  switches that device's relay and registry entry on, arms an auto-off timer for the
  device with the task's duration, and deletes exactly that task, whatever else is due
  in the same minute; a tick with no due task changes nothing.
\<close>

theorem tick_fires_first_due_task:
  "(first_due lt (tasks (task_manager c)) i \<and> known_device (device (tasks (task_manager c) ! i)) \<longrightarrow>
      (let tk = tasks (task_manager c) ! i; c' = check_scheduled_tasks io lt c in
         device_status c' = (device_status c)(device tk \<mapsto> Switched True) \<and>
         relay_controller c' = relay_on (channel_of (device tk)) (relay_controller c) \<and>
         auto_off_timers c' = (auto_off_timers c)(device tk \<mapsto> next_timer c) \<and>
         (next_timer c,
          \<lparr>period = duration tk * 1000, cb_device = device tk,
           cb_channel = channel_of (device tk)\<rparr>) \<in> set (pending c') \<and>
         tasks (task_manager c') = remove_at i (tasks (task_manager c)))) \<and>
   ((\<forall>tk\<in>set (tasks (task_manager c)). \<not> due lt tk) \<longrightarrow> check_scheduled_tasks io lt c = c)"
proof (intro conjI impI)
  assume a: "first_due lt (tasks (task_manager c)) i \<and>
             known_device (device (tasks (task_manager c) ! i))"
  then have i: "i < length (tasks (task_manager c))" by (simp add: first_due_def)
  from a have fd: "first_due lt (tasks (task_manager c)) i"
    and kd: "known_device (device (tasks (task_manager c) ! i))" by simp_all
  show "let tk = tasks (task_manager c) ! i; c' = check_scheduled_tasks io lt c in
         device_status c' = (device_status c)(device tk \<mapsto> Switched True) \<and>
         relay_controller c' = relay_on (channel_of (device tk)) (relay_controller c) \<and>
         auto_off_timers c' = (auto_off_timers c)(device tk \<mapsto> next_timer c) \<and>
         (next_timer c,
          \<lparr>period = duration tk * 1000, cb_device = device tk,
           cb_channel = channel_of (device tk)\<rparr>) \<in> set (pending c') \<and>
         tasks (task_manager c') = remove_at i (tasks (task_manager c))"
    by (simp add: Let_def tick_first [OF fd] run_task_fields execute_known [OF kd]
                  activate_effect run_task_tasks [OF i])
next
  assume "\<forall>tk\<in>set (tasks (task_manager c)). \<not> due lt tk"
  then show "check_scheduled_tasks io lt c = c" by (rule tick_none)
qed

theorem tick_fires_first_due_task_witness:
  "first_due xmas ex_tasks (Suc 0) \<and> known_device ''pump1'' \<and>
   device_status (check_scheduled_tasks WriteOk xmas (board ex_tasks)) ''pump1'' = Some (Switched True) \<and>
   device_status (check_scheduled_tasks WriteOk xmas (board ex_tasks)) ''pump2'' = Some (Switched False) \<and>
   relay_controller (check_scheduled_tasks WriteOk xmas (board ex_tasks)) = [0, 1, 1, 1] \<and>
   auto_off_timers (check_scheduled_tasks WriteOk xmas (board ex_tasks)) ''pump1'' = Some 0 \<and>
   (0, \<lparr>period = 300000, cb_device = ''pump1'', cb_channel = 0\<rparr>)
     \<in> set (pending (check_scheduled_tasks WriteOk xmas (board ex_tasks))) \<and>
   tasks (task_manager (check_scheduled_tasks WriteOk xmas (board ex_tasks))) =
     [mk_task ''2024-12-24'' ''14:30'' ''pump3'' 10, mk_task ''2024-12-25'' ''14:30'' ''pump2'' 60] \<and>
   list_all (\<lambda>tk. \<not> due later tk) ex_tasks \<and>
   check_scheduled_tasks WriteOk later (board ex_tasks) = board ex_tasks"
proof -
  have k: "known_device ''pump1''" by (simp add: known_device_def)
  have e1: "ex_tasks ! Suc 0 = mk_task ''2024-12-25'' ''14:30'' ''pump1'' 300"
    by (simp add: ex_tasks_def)
  have r: "remove_at (Suc 0) ex_tasks =
     [mk_task ''2024-12-24'' ''14:30'' ''pump3'' 10, mk_task ''2024-12-25'' ''14:30'' ''pump2'' 60]"
    by (simp add: ex_tasks_def remove_at_def)
  show ?thesis
    using tick_fires_first_due_task [of xmas "board ex_tasks" "Suc 0" WriteOk]
          tick_fires_first_due_task [of later "board ex_tasks" 0 WriteOk]
          ex_first_due ex_none_later k
    by (simp add: board_fields e1 r Let_def mk_task_def channel_of_def relay_on_def list_all_iff)
qed

text \<open>
  The claim as first stated fails for a device outside the four: the due task for
  \<open>pump4\<close> is deleted, nothing is switched on and no timer is armed.
\<close>

theorem tick_unknown_device_counterexample:
  "first_due xmas (tasks (task_manager (board [mk_task ''2024-12-25'' ''14:30'' ''pump4'' 300]))) 0 \<and>
   device_status (check_scheduled_tasks WriteOk xmas
      (board [mk_task ''2024-12-25'' ''14:30'' ''pump4'' 300])) ''pump4'' \<noteq> Some (Switched True) \<and>
   auto_off_timers (check_scheduled_tasks WriteOk xmas
      (board [mk_task ''2024-12-25'' ''14:30'' ''pump4'' 300])) ''pump4'' = None \<and>
   pending (check_scheduled_tasks WriteOk xmas
      (board [mk_task ''2024-12-25'' ''14:30'' ''pump4'' 300])) = [] \<and>
   tasks (task_manager (check_scheduled_tasks WriteOk xmas
      (board [mk_task ''2024-12-25'' ''14:30'' ''pump4'' 300]))) = []"
  by (simp add: first_due_def due_def mk_task_def xmas_date xmas_time board_fields
        check_scheduled_tasks_def get_tasks_def run_task_def execute_task_def Let_def
        delete_task_def save_tasks_def board_def initial_def store_of_def)

text \<open>
  C2. In every state the controller reaches, each device has at most one pending
  auto-off timer. Arming a timer for a device cancels the one it had, so that after
  arming once, or twice in a row, exactly one timer is pending for the device: the one
  armed last. When a pending timer expires, its callback sets the device's registry
  entry to off and deletes the device's entry from the timer set.
\<close>

theorem one_live_timer_per_device:
  assumes "reachable c"
  shows "length (live d c) \<le> 1 \<and>
     live d (set_auto_off_timer d ch dur c) =
       [(next_timer c, \<lparr>period = dur * 1000, cb_device = d, cb_channel = ch\<rparr>)] \<and>
     live d (set_auto_off_timer d ch' dur' (set_auto_off_timer d ch dur c)) =
       [(Suc (next_timer c), \<lparr>period = dur' * 1000, cb_device = d, cb_channel = ch'\<rparr>)] \<and>
     ((t, ti) \<in> set (pending c) \<longrightarrow>
        device_status (auto_off_callback t c) (cb_device ti) = Some (Switched False) \<and>
        auto_off_timers (auto_off_callback t c) (cb_device ti) = None \<and>
        t \<notin> fst ` set (pending (auto_off_callback t c)) \<and>
        live (cb_device ti) (auto_off_callback t c) = [])"
proof -
  from assms have ok: "timers_ok c" by (rule reachable_timers_ok)
  then have ok': "timers_ok (set_auto_off_timer d ch dur c)" by (rule timers_ok_arm)
  have "length (live d c) \<le> 1" using ok by (rule live_le_one)
  moreover have "live d (set_auto_off_timer d ch dur c) =
       [(next_timer c, \<lparr>period = dur * 1000, cb_device = d, cb_channel = ch\<rparr>)]"
    using ok by (rule live_arm)
  moreover have "live d (set_auto_off_timer d ch' dur' (set_auto_off_timer d ch dur c)) =
       [(Suc (next_timer c), \<lparr>period = dur' * 1000, cb_device = d, cb_channel = ch'\<rparr>)]"
    using live_arm [OF ok', of d ch' dur'] by (simp add: next_timer_arm)
  moreover have "(t, ti) \<in> set (pending c) \<longrightarrow>
        device_status (auto_off_callback t c) (cb_device ti) = Some (Switched False) \<and>
        auto_off_timers (auto_off_callback t c) (cb_device ti) = None \<and>
        t \<notin> fst ` set (pending (auto_off_callback t c)) \<and>
        live (cb_device ti) (auto_off_callback t c) = []"
    using fire_effect [OF ok] by blast
  ultimately show ?thesis by blast
qed

theorem one_live_timer_per_device_witness:
  "reachable armed_twice \<and>
   (Suc 0, \<lparr>period = 60000, cb_device = ''pump1'', cb_channel = 0\<rparr>) \<in> set (pending armed_twice) \<and>
   length (live ''pump1'' armed_twice) \<le> 1 \<and>
   live ''pump1'' (set_auto_off_timer ''pump1'' 0 5 armed_twice) =
     [(2, \<lparr>period = 5000, cb_device = ''pump1'', cb_channel = 0\<rparr>)] \<and>
   live ''pump1'' (set_auto_off_timer ''pump1'' 0 7 (set_auto_off_timer ''pump1'' 0 5 armed_twice)) =
     [(3, \<lparr>period = 7000, cb_device = ''pump1'', cb_channel = 0\<rparr>)] \<and>
   device_status (auto_off_callback (Suc 0) armed_twice) ''pump1'' = Some (Switched False) \<and>
   auto_off_timers (auto_off_callback (Suc 0) armed_twice) ''pump1'' = None \<and>
   live ''pump1'' (auto_off_callback (Suc 0) armed_twice) = []"
proof -
  have n: "next_timer armed_twice = 2"
    by (simp add: armed_twice_def next_timer_arm board_fields)
  show ?thesis
    using one_live_timer_per_device [OF armed_twice_reachable, of "''pump1''" 0 5 0 7 "Suc 0"
            "\<lparr>period = 60000, cb_device = ''pump1'', cb_channel = 0\<rparr>"]
          armed_twice_reachable
    by (simp add: armed_twice_pending n eval_nat_numeral)
qed

text \<open>
  C4. When the number of stored tasks is at or over \<open>max_tasks\<close>, \<open>add_task\<close> raises
  the limit error and leaves the task list and the storage file as they were. Under the
  limit it appends the new task at the end and writes the whole list over the storage
  file; when that write itself fails, the failure is caught and the appended list stays
  in memory.
\<close>

theorem add_task_limit:
  "(int (length (tasks tm)) \<ge> max_tasks tm \<longrightarrow>
      add_task io d t dev dur tm = (Inl (ValueError_max_tasks (max_tasks tm)), tm)) \<and>
   (int (length (tasks tm)) < max_tasks tm \<longrightarrow>
      fst (add_task io d t dev dur tm) = Inr () \<and>
      tasks (snd (add_task io d t dev dur tm)) = tasks tm @ [mk_task d t dev dur] \<and>
      max_tasks (snd (add_task io d t dev dur tm)) = max_tasks tm \<and>
      stored (snd (add_task io d t dev dur tm)) =
        (case io of WriteOk \<Rightarrow> Some (tasks tm @ [mk_task d t dev dur]) | WriteFails left \<Rightarrow> left))"
  by (cases io) (simp_all add: add_task_def save_tasks_def mk_task_def)

theorem add_task_limit_witness:
  "add_task WriteOk ''2024-12-25'' ''14:30'' ''pump1'' 300
      \<lparr>max_tasks = 2, tasks = [mk_task ''a'' ''b'' ''pump2'' 1, mk_task ''c'' ''d'' ''pump3'' 2],
       stored = Some []\<rparr> =
     (Inl (ValueError_max_tasks 2),
      \<lparr>max_tasks = 2, tasks = [mk_task ''a'' ''b'' ''pump2'' 1, mk_task ''c'' ''d'' ''pump3'' 2],
       stored = Some []\<rparr>) \<and>
   fst (add_task WriteOk ''2024-12-25'' ''14:30'' ''pump1'' 300
      \<lparr>max_tasks = 2, tasks = [mk_task ''a'' ''b'' ''pump2'' 1], stored = Some []\<rparr>) = Inr () \<and>
   tasks (snd (add_task WriteOk ''2024-12-25'' ''14:30'' ''pump1'' 300
      \<lparr>max_tasks = 2, tasks = [mk_task ''a'' ''b'' ''pump2'' 1], stored = Some []\<rparr>)) =
     [mk_task ''a'' ''b'' ''pump2'' 1, mk_task ''2024-12-25'' ''14:30'' ''pump1'' 300] \<and>
   stored (snd (add_task WriteOk ''2024-12-25'' ''14:30'' ''pump1'' 300
      \<lparr>max_tasks = 2, tasks = [mk_task ''a'' ''b'' ''pump2'' 1], stored = Some []\<rparr>)) =
     Some [mk_task ''a'' ''b'' ''pump2'' 1, mk_task ''2024-12-25'' ''14:30'' ''pump1'' 300]"
  using add_task_limit [of "\<lparr>max_tasks = 2, tasks = [mk_task ''a'' ''b'' ''pump2'' 1,
            mk_task ''c'' ''d'' ''pump3'' 2], stored = Some []\<rparr>" WriteOk
            "''2024-12-25''" "''14:30''" "''pump1''" 300]
        add_task_limit [of "\<lparr>max_tasks = 2, tasks = [mk_task ''a'' ''b'' ''pump2'' 1],
            stored = Some []\<rparr>" WriteOk "''2024-12-25''" "''14:30''" "''pump1''" 300]
  by simp

text \<open>
  C5 (as amended). A scheduled activation of pump1, pump2, pump3 or dcmotor with
  duration d arms an auto-off timer for that device with period 1000 d milliseconds,
  whatever d is: the scheduler, the one place that arms a timer, makes no check of the
  duration, and after the tick exactly this timer is pending for the device.
\<close>

theorem scheduled_activation_arms_for_any_duration:
  assumes "reachable c"
      and "first_due lt (tasks (task_manager c)) i"
      and "known_device (device (tasks (task_manager c) ! i))"
  shows "live (device (tasks (task_manager c) ! i)) (check_scheduled_tasks io lt c) =
           [(next_timer c,
             \<lparr>period = duration (tasks (task_manager c) ! i) * 1000,
              cb_device = device (tasks (task_manager c) ! i),
              cb_channel = channel_of (device (tasks (task_manager c) ! i))\<rparr>)]"
  using live_activate [OF reachable_timers_ok [OF assms(1)]]
  by (simp add: tick_first [OF assms(2)] live_run_task execute_known [OF assms(3)])

theorem scheduled_activation_arms_for_any_duration_witness:
  "reachable (board ex_tasks) \<and> first_due xmas ex_tasks (Suc 0) \<and> known_device ''pump1'' \<and>
   live ''pump1'' (check_scheduled_tasks WriteOk xmas (board ex_tasks)) =
     [(0, \<lparr>period = 300000, cb_device = ''pump1'', cb_channel = 0\<rparr>)]"
proof -
  have r: "reachable (board ex_tasks)" unfolding board_def by (rule reachable.r_init)
  have k: "known_device ''pump1''" by (simp add: known_device_def)
  have e1: "ex_tasks ! Suc 0 = mk_task ''2024-12-25'' ''14:30'' ''pump1'' 300"
    by (simp add: ex_tasks_def)
  show ?thesis
    using scheduled_activation_arms_for_any_duration [OF r, of xmas "Suc 0" WriteOk]
          r k ex_first_due
    by (simp add: board_fields e1 mk_task_def channel_of_def)
qed

text \<open>
  The claim as first stated fails at duration 0: the due task for pump1 with duration 0
  leaves a pending timer of period 0 for pump1.
\<close>

theorem zero_duration_arms_timer_counterexample:
  "duration (mk_task ''2024-12-25'' ''14:30'' ''pump1'' 0) = 0 \<and>
   auto_off_timers (check_scheduled_tasks WriteOk xmas
      (board [mk_task ''2024-12-25'' ''14:30'' ''pump1'' 0])) ''pump1'' = Some 0 \<and>
   pending (check_scheduled_tasks WriteOk xmas
      (board [mk_task ''2024-12-25'' ''14:30'' ''pump1'' 0])) =
     [(0, \<lparr>period = 0, cb_device = ''pump1'', cb_channel = 0\<rparr>)]"
  by (simp add: mk_task_def xmas_date xmas_time board_fields
        check_scheduled_tasks_def get_tasks_def run_task_def execute_task_def activate_def
        set_auto_off_timer_def Let_def
        delete_task_def save_tasks_def board_def initial_def store_of_def)

text \<open>
  C10. When the first due task of a tick names a device other than pump1, pump2, pump3
  and dcmotor, the tick deletes that task and changes nothing else: no relay, no
  registry entry, no timer; no later task of the list is run in its place.
\<close>

theorem tick_discards_unknown_device_task:
  assumes "first_due lt (tasks (task_manager c)) i"
      and "\<not> known_device (device (tasks (task_manager c) ! i))"
  shows "tasks (task_manager (check_scheduled_tasks io lt c)) = remove_at i (tasks (task_manager c)) \<and>
         device_status (check_scheduled_tasks io lt c) = device_status c \<and>
         relay_controller (check_scheduled_tasks io lt c) = relay_controller c \<and>
         auto_off_timers (check_scheduled_tasks io lt c) = auto_off_timers c \<and>
         pending (check_scheduled_tasks io lt c) = pending c \<and>
         next_timer (check_scheduled_tasks io lt c) = next_timer c"
proof -
  from assms(1) have i: "i < length (tasks (task_manager c))" by (simp add: first_due_def)
  show ?thesis
    by (simp add: tick_first [OF assms(1)] run_task_fields execute_unknown [OF assms(2)]
          run_task_tasks [OF i])
qed

theorem tick_discards_unknown_device_task_witness:
  "first_due xmas servo_first 0 \<and> \<not> known_device ''servo'' \<and>
   tasks (task_manager (check_scheduled_tasks WriteOk xmas (board servo_first))) =
     [mk_task ''2024-12-25'' ''14:30'' ''pump2'' 60] \<and>
   device_status (check_scheduled_tasks WriteOk xmas (board servo_first)) =
     device_status (board servo_first) \<and>
   relay_controller (check_scheduled_tasks WriteOk xmas (board servo_first)) = [1, 1, 1, 1] \<and>
   auto_off_timers (check_scheduled_tasks WriteOk xmas (board servo_first)) = Map.empty \<and>
   pending (check_scheduled_tasks WriteOk xmas (board servo_first)) = []"
proof -
  have f: "first_due xmas servo_first 0"
    by (simp add: first_due_def due_def servo_first_def mk_task_def xmas_date xmas_time)
  have k: "\<not> known_device ''servo''" by (simp add: known_device_def)
  have r: "remove_at 0 servo_first = [mk_task ''2024-12-25'' ''14:30'' ''pump2'' 60]"
    by (simp add: servo_first_def remove_at_def)
  have h: "servo_first ! 0 = mk_task ''2024-12-25'' ''14:30'' ''servo'' 30"
    by (simp add: servo_first_def)
  show ?thesis
    using tick_discards_unknown_device_task [of xmas "board servo_first" 0 WriteOk] f k
    by (simp add: board_fields r h mk_task_def)
qed

section \<open>Properties of the router\<close>

lemma route_loop_first:
  assumes "i < length rhs"
      and "route_method (rhs ! i) = meth"
      and "re (routeRegex (rhs ! i)) u = Some gs"
      and "\<forall>j<i. \<not> (route_method (rhs ! j) = meth \<and> re (routeRegex (rhs ! j)) u \<noteq> None)"
  shows "route_loop re rhs u meth = route_answer (rhs ! i) gs"
  using assms
proof (induction rhs arbitrary: i)
  case Nil
  then show ?case by simp
next
  case (Cons rh rhs)
  show ?case
  proof (cases i)
    case 0
    with Cons.prems show ?thesis by simp
  next
    case (Suc k)
    with Cons.prems have skip: "\<not> (route_method rh = meth \<and> re (routeRegex rh) u \<noteq> None)"
      by auto
    from Suc Cons.prems have k: "k < length rhs" "route_method (rhs ! k) = meth"
      "re (routeRegex (rhs ! k)) u = Some gs"
      "\<forall>j<k. \<not> (route_method (rhs ! j) = meth \<and> re (routeRegex (rhs ! j)) u \<noteq> None)"
      by auto
    from Cons.IH [OF k] skip Suc show ?thesis by auto
  qed
qed

lemma route_loop_none:
  assumes "\<forall>rh\<in>set rhs. \<not> (route_method rh = meth \<and> re (routeRegex rh) u \<noteq> None)"
  shows "route_loop re rhs u meth = Inr (None, None)"
  using assms by (induction rhs) auto

lemma rx_match_groups:
  "rx_match rx s = Some gs \<Longrightarrow> length gs = length (filter (\<lambda>p. p = RCap) rx)"
proof (induction rx arbitrary: s gs)
  case Nil
  then show ?case by (simp split: if_splits)
next
  case (Cons p rx)
  show ?case
  proof (cases p)
    case (RLit l)
    with Cons.prems have "rx_match rx (drop (Suc (length l)) s) = Some gs"
      by (simp split: if_splits)
    from Cons.IH [OF this] RLit show ?thesis by simp
  next
    case RCap
    with Cons.prems obtain t where s: "s = CHR ''/'' # t"
      by (cases s) (simp_all split: if_splits)
    with RCap Cons.prems obtain gs' where g: "rx_match rx (dropWhile is_word t) = Some gs'"
      and gs: "gs = takeWhile is_word t # gs'"
      by (cases "rx_match rx (dropWhile is_word t)") simp_all
    from Cons.IH [OF g] RCap gs show ?thesis by simp
  qed
qed

lemma route_pieces_step:
  "route_pieces (s # ss) =
     (if startswith s ''<'' \<and> endswith s ''>''
      then (butlast (tl s) # fst (route_pieces ss), RCap # snd (route_pieces ss))
      else if s \<noteq> [] then (fst (route_pieces ss), RLit s # snd (route_pieces ss))
      else route_pieces ss)"
  by (cases "route_pieces ss") simp

declare route_pieces.simps(2) [simp del]

lemma route_pieces_names:
  "length (fst (route_pieces parts)) = length (filter (\<lambda>p. p = RCap) (snd (route_pieces parts)))"
proof (induction parts)
  case Nil
  show ?case by simp
next
  case (Cons s ss)
  then show ?case by (simp only: route_pieces_step) simp
qed

lemma compile_route_fields:
  "route (compile_route (r, m, f)) = r"
  "route_method (compile_route (r, m, f)) = m"
  "func (compile_route (r, m, f)) = f"
  "routeArgNames (compile_route (r, m, f)) = fst (route_pieces (split_on CHR ''/'' r))"
  "routeRegex (compile_route (r, m, f)) = snd (route_pieces (split_on CHR ''/'' r))"
  by (simp_all add: compile_route_def split_beta)

lemma bind_args_enough:
  "length ns \<le> length gs \<Longrightarrow> \<exists>args. bind_args ns gs m = Inr args"
  by (induction ns gs m rule: bind_args.induct) auto

lemma compiled_answer:
  assumes "rx_match (routeRegex (compile_route rmf)) u = Some gs"
  shows "\<exists>args. route_answer (compile_route rmf) gs = Inr (Some (func (compile_route rmf)), args)"
proof -
  obtain r m f where rmf: "rmf = (r, m, f)" by (cases rmf)
  let ?names = "fst (route_pieces (split_on CHR ''/'' r))"
  let ?rx = "snd (route_pieces (split_on CHR ''/'' r))"
  from assms have "length gs = length (filter (\<lambda>p. p = RCap) ?rx)"
    by (simp add: rmf compile_route_fields rx_match_groups)
  with route_pieces_names [of "split_on CHR ''/'' r"] have "length ?names \<le> length gs" by simp
  from bind_args_enough [OF this] obtain args where "bind_args ?names gs Map.empty = Inr args"
    by blast
  then show ?thesis by (simp add: route_answer_def rmf compile_route_fields)
qed

lemma ex_routes_made:
  "make_routes ex_routes =
     [\<lparr>route = ''/api/<x>'', route_method = ''GET'', func = 1, routeArgNames = [''x''],
       routeRegex = [RLit ''api'', RCap]\<rparr>,
      \<lparr>route = ''/api/status'', route_method = ''GET'', func = 2, routeArgNames = [],
       routeRegex = [RLit ''api'', RLit ''status'']\<rparr>]"
  by code_simp

lemma ex_upper: "upper ''get'' = ''GET''"
  by code_simp

lemma ex_trim: "trim_slash ''/api/status'' = ''/api/status''" "trim_slash ''/nope'' = ''/nope''"
  by code_simp+

lemma ex_match:
  "rx_match [RLit ''api'', RCap] ''/api/status'' = Some [''status'']"
  "rx_match [RLit ''api'', RLit ''status''] ''/api/status'' = Some []"
  "rx_match [RLit ''api'', RCap] ''/nope'' = None"
  "rx_match [RLit ''api'', RLit ''status''] ''/nope'' = None"
  by code_simp+

lemma ex_coerce: "coerce ''status'' = StrArg ''status''"
  by code_simp

lemma split_on_path: "path_of (split_on CHR ''/'' t) = CHR ''/'' # t"
proof (induction t)
  case Nil
  show ?case by (simp add: path_of_def)
next
  case (Cons x xs)
  show ?case
  proof (cases "x = CHR ''/''")
    case True
    with Cons show ?thesis by (simp add: path_of_def)
  next
    case False
    obtain w ws where s: "split_on CHR ''/'' xs = w # ws"
      by (cases "split_on CHR ''/'' xs") (cases xs; simp split: if_splits list.splits)+
    with Cons False show ?thesis by (simp add: path_of_def)
  qed
qed

lemma split_on_no_sep: "s \<in> set (split_on c xs) \<Longrightarrow> c \<notin> set s"
proof (induction xs arbitrary: s)
  case Nil
  then show ?case by simp
next
  case (Cons x xs)
  show ?case
  proof (cases "x = c")
    case True
    with Cons show ?thesis by auto
  next
    case False
    show ?thesis
    proof (cases "split_on c xs")
      case Nil
      with Cons.prems False show ?thesis by simp
    next
      case (Cons w ws)
      with Cons.prems False have "s = x # w \<or> s \<in> set ws" by simp
      moreover have "c \<notin> set w" "\<And>u. u \<in> set ws \<Longrightarrow> c \<notin> set u"
        using Cons.IH Cons by simp_all
      ultimately show ?thesis using False by auto
    qed
  qed
qed

lemma not_word_slash: "\<not> is_word CHR ''/''"
  by code_simp

lemma rx_match_no_slash: "ch \<noteq> CHR ''/'' \<Longrightarrow> rx_match rx (ch # t) = None"
proof (cases rx)
  case Nil
  then show ?thesis by simp
next
  case (Cons p ps)
  assume "ch \<noteq> CHR ''/''"
  with Cons show ?thesis by (cases p) simp_all
qed

lemma path_of_simps [simp]:
  "path_of [] = []"
  "path_of (seg # segs) = CHR ''/'' # seg @ path_of segs"
  by (simp_all add: path_of_def)

lemma path_of_head: "path_of segs = [] \<or> (\<exists>t. path_of segs = CHR ''/'' # t)"
  by (cases segs) simp_all

lemma captures_simps [simp]:
  "captures [] segs = []"
  "captures rx [] = []"
  "captures (RLit l # rx) (seg # segs) = captures rx segs"
  "captures (RCap # rx) (seg # segs) = seg # captures rx segs"
  by (simp_all add: captures_def)

lemma word_run:
  assumes "list_all is_word seg" and "p = [] \<or> (\<exists>t. p = CHR ''/'' # t)"
  shows "takeWhile is_word (seg @ p) = seg" and "dropWhile is_word (seg @ p) = p"
proof -
  from assms(2) have tp: "takeWhile is_word p = []" and dp: "dropWhile is_word p = p"
    by (auto simp: not_word_slash)
  from assms(1) have all: "\<forall>x\<in>set seg. is_word x" by (simp add: list_all_iff)
  show "takeWhile is_word (seg @ p) = seg" using all tp by (simp add: takeWhile_append2)
  show "dropWhile is_word (seg @ p) = p" using all dp by (simp add: dropWhile_append2)
qed

lemma word_stop:
  assumes "\<not> list_all is_word seg" and "CHR ''/'' \<notin> set seg"
  shows "\<exists>ch t. dropWhile is_word (seg @ p) = ch # t \<and> ch \<noteq> CHR ''/''"
proof -
  from assms(1) obtain x where x: "x \<in> set seg" "\<not> is_word x" by (auto simp: list_all_iff)
  then have d: "dropWhile is_word (seg @ p) = dropWhile is_word seg @ p"
    by (simp add: dropWhile_append1)
  from x have ne: "dropWhile is_word seg \<noteq> []" by (auto simp: dropWhile_eq_Nil_conv)
  then obtain ch t where c: "dropWhile is_word seg = ch # t" by (cases "dropWhile is_word seg") auto
  have "ch \<in> set seg" using c set_dropWhileD [of ch is_word seg] by simp
  with assms(2) have "ch \<noteq> CHR ''/''" by auto
  with d c show ?thesis by simp
qed

lemma lit_other:
  assumes "seg \<noteq> l" and "CHR ''/'' \<notin> set seg" and "CHR ''/'' \<notin> set l"
      and "p = [] \<or> (\<exists>t. p = CHR ''/'' # t)"
      and "take (length l) (seg @ p) = l"
  shows "\<exists>ch t. drop (length l) (seg @ p) = ch # t \<and> ch \<noteq> CHR ''/''"
proof (cases "length l < length seg")
  case True
  then have d: "drop (length l) (seg @ p) = drop (length l) seg @ p" by simp
  from True obtain ch t where c: "drop (length l) seg = ch # t"
    by (cases "drop (length l) seg") auto
  have "ch \<in> set seg" using c in_set_dropD [of ch "length l" seg] by simp
  with assms(2) have "ch \<noteq> CHR ''/''" by auto
  with d c show ?thesis by simp
next
  case False
  with assms(5) have l: "l = seg @ take (length l - length seg) p" by simp
  with assms(1) have "take (length l - length seg) p \<noteq> []" by auto
  with assms(4) obtain t where p: "p = CHR ''/'' # t" and k: "length l - length seg \<noteq> 0"
    by (cases "length l - length seg") auto
  then have "CHR ''/'' \<in> set (take (length l - length seg) p)"
    by (cases "length l - length seg") auto
  with l have "CHR ''/'' \<in> set l" by (metis Un_iff set_append)
  with assms(3) show ?thesis by simp
qed

lemma rx_match_path:
  assumes "\<forall>seg\<in>set segs. CHR ''/'' \<notin> set seg"
      and "\<forall>l. RLit l \<in> set rx \<longrightarrow> CHR ''/'' \<notin> set l"
  shows "rx_match rx (path_of segs) =
           (if list_all2 seg_matches rx segs then Some (captures rx segs) else None)"
  using assms
proof (induction rx arbitrary: segs)
  case Nil
  show ?case by (cases segs) simp_all
next
  case (Cons p rx)
  show ?case
  proof (cases segs)
    case Nil
    then show ?thesis by (cases p) simp_all
  next
    case (Cons seg segs')
    from Cons.prems(1) Cons have ns: "CHR ''/'' \<notin> set seg"
      and ns': "\<forall>s\<in>set segs'. CHR ''/'' \<notin> set s" by simp_all
    from Cons.prems(2) have nl: "\<forall>l. RLit l \<in> set rx \<longrightarrow> CHR ''/'' \<notin> set l" by simp
    note IH = Cons.IH [OF ns' nl]
    note hd = path_of_head [of segs']
    show ?thesis
    proof (cases p)
      case (RLit l)
      with Cons.prems(2) have l: "CHR ''/'' \<notin> set l" by simp
      show ?thesis
      proof (cases "seg = l")
        case True
        with RLit Cons IH show ?thesis by simp
      next
        case False
        have "rx_match (RLit l # rx) (path_of segs) = None"
        proof (cases "take (length l) (seg @ path_of segs') = l")
          case True
          from lit_other [OF False ns l hd True] obtain ch t
            where "drop (length l) (seg @ path_of segs') = ch # t" "ch \<noteq> CHR ''/''" by blast
          with True Cons show ?thesis by (simp add: rx_match_no_slash)
        next
          case False
          with Cons show ?thesis by simp
        qed
        with False RLit Cons show ?thesis by simp
      qed
    next
      case RCap
      show ?thesis
      proof (cases "list_all is_word seg")
        case True
        from word_run [OF True hd] RCap Cons IH True show ?thesis by simp
      next
        case False
        from word_stop [OF False ns, of "path_of segs'"] obtain ch t
          where "dropWhile is_word (seg @ path_of segs') = ch # t" "ch \<noteq> CHR ''/''" by blast
        with RCap Cons False show ?thesis by (simp add: rx_match_no_slash)
      qed
    qed
  qed
qed

lemma segments_Some:
  assumes "segments s = Some segs"
  shows "s = path_of segs" and "\<forall>seg\<in>set segs. CHR ''/'' \<notin> set seg"
proof -
  show "s = path_of segs"
  proof (cases s)
    case Nil
    with assms show ?thesis by simp
  next
    case (Cons ch t)
    with assms have "ch = CHR ''/''" "segs = split_on CHR ''/'' t"
      by (simp_all split: if_splits)
    with Cons show ?thesis by (simp add: split_on_path)
  qed
  show "\<forall>seg\<in>set segs. CHR ''/'' \<notin> set seg"
  proof (cases s)
    case Nil
    with assms show ?thesis by simp
  next
    case (Cons ch t)
    with assms have "segs = split_on CHR ''/'' t" by (simp split: if_splits)
    then show ?thesis by (auto dest: split_on_no_sep)
  qed
qed

lemma segments_None:
  assumes "segments s = None"
  shows "\<exists>ch t. s = ch # t \<and> ch \<noteq> CHR ''/''"
  using assms by (cases s) (simp_all split: if_splits)

lemma rx_match_segments:
  assumes "\<forall>l. RLit l \<in> set rx \<longrightarrow> CHR ''/'' \<notin> set l"
  shows "rx_match rx s =
           (case segments s of
              None \<Rightarrow> None
            | Some segs \<Rightarrow>
                if list_all2 seg_matches rx segs then Some (captures rx segs) else None)"
proof (cases "segments s")
  case None
  from segments_None [OF None] obtain ch t where "s = ch # t" "ch \<noteq> CHR ''/''" by blast
  with None show ?thesis by (simp add: rx_match_no_slash)
next
  case (Some segs)
  from segments_Some [OF Some] rx_match_path [OF _ assms, of segs] Some
  show ?thesis by simp
qed

lemma route_pieces_lits:
  "RLit l \<in> set (snd (route_pieces parts)) \<Longrightarrow> l \<in> set parts"
proof (induction parts)
  case Nil
  then show ?case by simp
next
  case (Cons s ss)
  then show ?case by (simp only: route_pieces_step) (auto split: if_splits)
qed

lemma pieces_of_no_slash: "RLit l \<in> set (pieces_of r) \<Longrightarrow> CHR ''/'' \<notin> set l"
  unfolding pieces_of_def by (blast dest: route_pieces_lits split_on_no_sep)

lemma bind_args_map:
  "length ns \<le> length gs \<Longrightarrow>
   bind_args ns gs m = Inr (m ++ map_of (rev (zip ns (map coerce gs))))"
proof (induction ns gs m rule: bind_args.induct)
  case (1 gs args)
  show ?case by simp
next
  case (2 n ns args)
  then show ?case by simp
next
  case (3 n ns g gs args)
  from "3.prems" have len: "length ns \<le> length gs" by simp
  have "args(n \<mapsto> coerce g) ++ map_of (rev (zip ns (map coerce gs))) =
     args ++ map_of (rev (zip (n # ns) (map coerce (g # gs))))"
    by simp
  then have e: "Inr (args(n \<mapsto> coerce g) ++ map_of (rev (zip ns (map coerce gs)))) =
     (Inr (args ++ map_of (rev (zip (n # ns) (map coerce (g # gs))))) ::
        web_error + (string \<rightharpoonup> arg_value))"
    by (rule arg_cong)
  have "bind_args (n # ns) (g # gs) args = bind_args ns gs (args(n \<mapsto> coerce g))"
    by (rule bind_args.simps)
  also have "\<dots> = Inr (args(n \<mapsto> coerce g) ++ map_of (rev (zip ns (map coerce gs))))"
    by (rule "3.IH" [OF len])
  also note e
  finally show ?case .
qed

lemma captures_length:
  "list_all2 seg_matches rx segs \<Longrightarrow>
   length (captures rx segs) = length (filter (\<lambda>p. p = RCap) rx)"
proof (induction rx segs rule: list_all2_induct)
  case Nil
  show ?case by simp
next
  case (Cons p rx seg segs)
  then show ?case by (cases p) simp_all
qed

lemma names_pieces: "length (names_of r) = length (filter (\<lambda>p. p = RCap) (pieces_of r))"
  unfolding names_of_def pieces_of_def by (rule route_pieces_names)

lemma relay_route_facts:
  "plain_route relay_route"
  "ascii_line ''/relay/2/on/''"
  "segments (trim_slash ''/relay/2/on/'') = Some [''relay'', ''2'', ''on'']"
  "pieces_of relay_route = [RLit ''relay'', RCap, RCap]"
  "names_of relay_route = [''channel'', ''action'']"
  "list_all2 seg_matches [RLit ''relay'', RCap, RCap] [''relay'', ''2'', ''on'']"
  "captures [RLit ''relay'', RCap, RCap] [''relay'', ''2'', ''on''] = [''2'', ''on'']"
  "coerce ''2'' = IntArg 2"
  "coerce ''on'' = StrArg ''on''"
  "upper ''get'' = ''GET''"
  by code_simp+

lemma hyphen_facts:
  "list_all (\<lambda>ch. ch \<noteq> CHR ''/'') ''a-b''"
  "route_method (compile_route (''/files/<name>'', ''GET'', 7 :: nat)) = upper ''GET''"
  "rx_match (routeRegex (compile_route (''/files/<name>'', ''GET'', 7 :: nat)))
     (trim_slash ''/files/a-b'') = None"
  by code_simp+

section \<open>Properties of connection handling\<close>

lemma write_code_fields [simp]:
  "socket_closes (write_code k c) = socket_closes c"
  "socketfile_closes (write_code k c) = socketfile_closes c"
  "handed_over (write_code k c) = handed_over c"
  "written (write_code k c) = written c @ [k]"
  by (simp_all add: write_code_def)

lemma not_found_fields [simp]:
  "socket_closes (WriteResponseNotFound srv c) = socket_closes c"
  "socketfile_closes (WriteResponseNotFound srv c) = socketfile_closes c"
  "handed_over (WriteResponseNotFound srv c) = handed_over c"
  by (simp_all add: WriteResponseNotFound_def split: option.splits)

lemma serve_static_keeps:
  "fst (serve_static srv rq p c) \<noteq> Returned"
  "socket_closes (snd (serve_static srv rq p c)) = socket_closes c"
  "socketfile_closes (snd (serve_static srv rq p c)) = socketfile_closes c"
  "handed_over (snd (serve_static srv rq p c)) = handed_over c"
  by (simp_all add: serve_static_def split: option.splits)

lemma dispatch_keeps:
  "fst (dispatch srv rq m p c) \<noteq> Returned"
  "socket_closes (snd (dispatch srv rq m p c)) = socket_closes c"
  "socketfile_closes (snd (dispatch srv rq m p c)) = socketfile_closes c"
  "handed_over (snd (dispatch srv rq m p c)) = handed_over c"
  by (simp_all add: dispatch_def serve_static_keeps split: sum.splits option.splits)

lemma try_block_keeps:
  "socket_closes (snd (try_block srv rq c)) = socket_closes c"
  "socketfile_closes (snd (try_block srv rq c)) = socketfile_closes c"
  by (simp_all add: try_block_def Let_def dispatch_keeps
        split: option.splits header_result.splits)

lemma try_block_returned:
  "fst (try_block srv rq c) = Returned \<longleftrightarrow> ws_handover srv rq"
  by (auto simp: try_block_def Let_def ws_handover_def dispatch_keeps
        split: option.splits header_result.splits)

lemma try_block_handover:
  "ws_handover srv rq \<Longrightarrow> try_block srv rq c = (Returned, c\<lparr>handed_over := True\<rparr>)"
  by (auto simp: try_block_def Let_def ws_handover_def split: option.splits)

lemma try_block_not_handover:
  "\<not> ws_handover srv rq \<Longrightarrow> handed_over (snd (try_block srv rq c)) = handed_over c"
  by (auto simp: try_block_def Let_def ws_handover_def dispatch_keeps
        split: option.splits header_result.splits)

lemma close_block_fields:
  "has_readline rq \<or> \<not> socketfile_close_raises rq \<Longrightarrow>
   socket_closes (close_block rq c) = Suc (socket_closes c)"
  "handed_over (close_block rq c) = handed_over c"
  "written (close_block rq c) = written c"
  by (auto simp: close_block_def)

lemma processRequest_ends: "\<exists>c'. processRequest srv rq c = Inr c'"
  by (cases "try_block srv rq c"; cases "fst (try_block srv rq c)")
     (simp_all add: processRequest_def)

lemma ws_request_upgrade: "getConnUpgrade (headers ws_request) = Some ''websocket''"
  by code_simp

lemma ws_request_handover: "ws_handover ex_server ws_request"
  by (simp add: ws_handover_def ws_request_upgrade)
     (simp add: ws_request_def plain_request_def ex_server_def)

lemma status_upgrade: "getConnUpgrade (headers (plain_request meth p)) = None"
  by (simp add: getConnUpgrade_def plain_request_def headers_get_def lower_def)

lemma status_not_handover: "\<not> ws_handover ex_server (plain_request ''GET'' ''/status'')"
  by (simp add: ws_handover_def status_upgrade)

lemma boom_facts:
  "snd (route_pieces (split_on CHR ''/'' ''/boom'')) = [RLit ''boom'']"
  "fst (route_pieces (split_on CHR ''/'' ''/boom'')) = []"
  "snd (route_pieces [[], ''boom'']) = [RLit ''boom'']"
  "fst (route_pieces [[], ''boom'']) = []"
  "trim_slash ''/boom'' = ''/boom''"
  "rx_match [RLit ''boom''] ''/boom'' = Some []"
  "upper ''GET'' = ''GET''"
  by code_simp+

lemma boom_route:
  "GetRouteHandler rx_match (srv_routeHandlers ex_server) ''/boom'' ''GET'' = Inr (Some boom, None)"
  by (simp add: ex_server_def GetRouteHandler_def make_routes_def compile_route_fields
        boom_facts route_answer_def del: rx_match.simps)

section \<open>Claims about the web server\<close>

text \<open>
  C3. For every route table and every request, \<open>GetRouteHandler\<close> answers with the
  first route, in registration order, whose method equals the upper-cased request method
  and whose expression matches the request path (less one trailing slash): routes after
  it are not looked at, however specific they are. For a table built by the constructor
  the answer carries that route's handler. When no route matches, there is no handler.
\<close>

theorem GetRouteHandler_first_registered_match:
  "(i < length rhs \<and> route_method (rhs ! i) = upper meth \<and>
    re (routeRegex (rhs ! i)) (trim_slash resUrl) = Some gs \<and>
    (\<forall>j<i. \<not> route_matches re resUrl meth (rhs ! j)) \<longrightarrow>
      GetRouteHandler re rhs resUrl meth = route_answer (rhs ! i) gs) \<and>
   (i < length routeHandlers \<and> route_matches rx_match resUrl meth (make_routes routeHandlers ! i) \<and>
    (\<forall>j<i. \<not> route_matches rx_match resUrl meth (make_routes routeHandlers ! j)) \<longrightarrow>
      (\<exists>args. GetRouteHandler rx_match (make_routes routeHandlers) resUrl meth =
                Inr (Some (snd (snd (routeHandlers ! i))), args))) \<and>
   ((\<forall>rh\<in>set rhs. \<not> route_matches re resUrl meth rh) \<longrightarrow>
      GetRouteHandler re rhs resUrl meth = Inr (None, None))"
proof (intro conjI impI)
  assume a: "i < length rhs \<and> route_method (rhs ! i) = upper meth \<and>
    re (routeRegex (rhs ! i)) (trim_slash resUrl) = Some gs \<and>
    (\<forall>j<i. \<not> route_matches re resUrl meth (rhs ! j))"
  then have ne: "rhs \<noteq> []" by auto
  from a have "route_loop re rhs (trim_slash resUrl) (upper meth) = route_answer (rhs ! i) gs"
    by (intro route_loop_first) (simp_all add: route_matches_def)
  with ne show "GetRouteHandler re rhs resUrl meth = route_answer (rhs ! i) gs"
    by (simp add: GetRouteHandler_def)
next
  let ?rhs = "make_routes routeHandlers"
  assume a: "i < length routeHandlers \<and> route_matches rx_match resUrl meth (?rhs ! i) \<and>
    (\<forall>j<i. \<not> route_matches rx_match resUrl meth (?rhs ! j))"
  then have i: "i < length ?rhs" and ne: "?rhs \<noteq> []" by (auto simp: make_routes_def)
  from a have nth: "?rhs ! i = compile_route (routeHandlers ! i)" by (simp add: make_routes_def)
  from a obtain gs' where m: "route_method (?rhs ! i) = upper meth"
    "rx_match (routeRegex (?rhs ! i)) (trim_slash resUrl) = Some gs'"
    by (auto simp: route_matches_def)
  from a have "\<forall>j<i. \<not> (route_method (?rhs ! j) = upper meth \<and>
      rx_match (routeRegex (?rhs ! j)) (trim_slash resUrl) \<noteq> None)"
    by (simp add: route_matches_def)
  from route_loop_first [where re = rx_match and u = "trim_slash resUrl", OF i m this]
  have l: "route_loop rx_match ?rhs (trim_slash resUrl) (upper meth) = route_answer (?rhs ! i) gs'" .
  from compiled_answer [of "routeHandlers ! i" "trim_slash resUrl" gs'] m(2) nth
  obtain args where "route_answer (?rhs ! i) gs' = Inr (Some (func (?rhs ! i)), args)" by auto
  moreover have "func (?rhs ! i) = snd (snd (routeHandlers ! i))"
    by (cases "routeHandlers ! i") (simp add: nth compile_route_fields)
  ultimately show "\<exists>args. GetRouteHandler rx_match ?rhs resUrl meth =
                Inr (Some (snd (snd (routeHandlers ! i))), args)"
    using l ne by (simp add: GetRouteHandler_def)
next
  assume "\<forall>rh\<in>set rhs. \<not> route_matches re resUrl meth rh"
  then have "route_loop re rhs (trim_slash resUrl) (upper meth) = Inr (None, None)"
    by (intro route_loop_none) (simp add: route_matches_def)
  then show "GetRouteHandler re rhs resUrl meth = Inr (None, None)"
    by (simp add: GetRouteHandler_def)
qed

theorem GetRouteHandler_first_registered_match_witness:
  "route_matches rx_match ''/api/status'' ''get'' (make_routes ex_routes ! 0) \<and>
   route_matches rx_match ''/api/status'' ''get'' (make_routes ex_routes ! 1) \<and>
   GetRouteHandler rx_match (make_routes ex_routes) ''/api/status'' ''get'' =
     Inr (Some 1, Some [''x'' \<mapsto> StrArg ''status'']) \<and>
   GetRouteHandler rx_match (make_routes ex_routes) ''/nope'' ''get'' = Inr (None, None)"
proof -
  have m0: "route_matches rx_match ''/api/status'' ''get'' (make_routes ex_routes ! 0)"
    by code_simp
  have m1: "route_matches rx_match ''/api/status'' ''get'' (make_routes ex_routes ! 1)"
    by code_simp
  have "list_all (\<lambda>rh. \<not> route_matches rx_match ''/nope'' ''get'' rh) (make_routes ex_routes)"
    by code_simp
  then have n: "\<forall>rh\<in>set (make_routes ex_routes). \<not> route_matches rx_match ''/nope'' ''get'' rh"
    by (simp add: list_all_iff)
  have h: "0 < length (make_routes ex_routes)"
    "route_method (make_routes ex_routes ! 0) = upper ''get''"
    "rx_match (routeRegex (make_routes ex_routes ! 0)) (trim_slash ''/api/status'') = Some [''status'']"
    by code_simp+
  have a: "route_answer (make_routes ex_routes ! 0) [''status''] =
           Inr (Some 1, Some [''x'' \<mapsto> StrArg ''status''])"
    by (simp add: route_answer_def ex_routes_made ex_coerce)
  from GetRouteHandler_first_registered_match
         [where i = 0 and rhs = "make_routes ex_routes" and re = rx_match
            and resUrl = "''/api/status''" and meth = "''get''" and gs = "[''status'']"
            and routeHandlers = ex_routes] h
  have "GetRouteHandler rx_match (make_routes ex_routes) ''/api/status'' ''get'' =
          route_answer (make_routes ex_routes ! 0) [''status'']"
    by simp
  moreover from GetRouteHandler_first_registered_match
         [where rhs = "make_routes ex_routes" and re = rx_match
            and resUrl = "''/nope''" and meth = "''get''" and routeHandlers = ex_routes
            and i = 0 and gs = "[]"] n
  have "GetRouteHandler rx_match (make_routes ex_routes) ''/nope'' ''get'' = Inr (None, None)"
    by blast
  ultimately show ?thesis using m0 m1 a by simp
qed

text \<open>
  C6. \<open>_physPathFromURLPath\<close> replaces \<open>../\<close> by a slash in one pass and does not look
  at its own output again: the path \<open>/....//....//etc/passwd\<close> comes out as
  \<open>/..//..//etc/passwd\<close>, which still holds \<open>../\<close> and, appended to the web root
  \<open>/flash/www\<close>, names a file two directories above it. The path
  \<open>/../../etc/passwd\<close> of the claim's example does stay under the web root.
\<close>

theorem traversal_survives_replace:
  "physPathFromURLPath (\<lambda>p. True) ''/flash/www'' ''/....//....//etc/passwd'' =
     Some ''/flash/www/..//..//etc/passwd'' \<and>
   contains ''/flash/www/..//..//etc/passwd'' ''../'' \<and>
   physPathFromURLPath (\<lambda>p. True) ''/flash/www'' ''/../../etc/passwd'' =
     Some ''/flash/www///etc/passwd''"
  by code_simp

text \<open>
  C8 (as amended). Take a route whose literal segments hold no character that is special
  in a regular expression, and an ASCII request path without a line feed. The route
  matches the path (less one trailing slash) exactly when the path has as many segments
  as the route has non-empty segments and they agree one by one: a segment \<open><name>\<close>
  of the route agrees with the path segments made of letters, digits and underscores only
  (the empty one too), so not with a segment holding a hyphen or a dot, and with nothing
  that spans a slash; any other segment of the route agrees with the identical text only.
  Each captured segment is bound to its name, as an integer when \<open>int\<close> reads it and as
  the string otherwise.
\<close>

theorem placeholder_matches_word_segments:
  assumes "plain_route r" and "ascii_line resUrl"
  shows "GetRouteHandler rx_match (make_routes [(r, upper meth, f)]) resUrl meth =
     (case segments (trim_slash resUrl) of
        None \<Rightarrow> Inr (None, None)
      | Some segs \<Rightarrow>
          (if list_all2 seg_matches (pieces_of r) segs
           then Inr (Some f,
                     if names_of r = [] then None
                     else Some (args_of (names_of r) (captures (pieces_of r) segs)))
           else Inr (None, None)))"
proof -
  let ?u = "trim_slash resUrl"
  have g: "GetRouteHandler rx_match (make_routes [(r, upper meth, f)]) resUrl meth =
        (case rx_match (pieces_of r) ?u of
           Some gs \<Rightarrow> route_answer (compile_route (r, upper meth, f)) gs
         | None \<Rightarrow> Inr (None, None))"
    by (simp add: GetRouteHandler_def make_routes_def compile_route_fields pieces_of_def
          split: option.split)
  have m: "rx_match (pieces_of r) ?u =
        (case segments ?u of
           None \<Rightarrow> None
         | Some segs \<Rightarrow>
             if list_all2 seg_matches (pieces_of r) segs
             then Some (captures (pieces_of r) segs) else None)"
    by (rule rx_match_segments) (simp add: pieces_of_no_slash)
  show ?thesis
  proof (cases "segments ?u")
    case None
    with g m show ?thesis by simp
  next
    case (Some segs)
    show ?thesis
    proof (cases "list_all2 seg_matches (pieces_of r) segs")
      case False
      with g m Some show ?thesis by simp
    next
      case True
      let ?gs = "captures (pieces_of r) segs"
      from captures_length [OF True] names_pieces [of r]
      have "length (names_of r) \<le> length ?gs" by simp
      from bind_args_map [OF this, of Map.empty]
      have "bind_args (names_of r) ?gs Map.empty = Inr (args_of (names_of r) ?gs)"
        by (simp add: args_of_def)
      then have "route_answer (compile_route (r, upper meth, f)) ?gs =
          Inr (Some f, if names_of r = [] then None else Some (args_of (names_of r) ?gs))"
        by (simp add: route_answer_def compile_route_fields names_of_def)
      with g m Some True show ?thesis by simp
    qed
  qed
qed

theorem placeholder_matches_word_segments_witness:
  "plain_route relay_route \<and> ascii_line ''/relay/2/on/'' \<and>
   GetRouteHandler rx_match (make_routes [(relay_route, ''GET'', 5 :: nat)]) ''/relay/2/on/'' ''get'' =
     Inr (Some 5, Some [''channel'' \<mapsto> IntArg 2, ''action'' \<mapsto> StrArg ''on''])"
proof -
  note f = relay_route_facts
  from placeholder_matches_word_segments [OF f(1) f(2), of "''get''" "5 :: nat"]
  have "GetRouteHandler rx_match (make_routes [(relay_route, ''GET'', 5 :: nat)])
          ''/relay/2/on/'' ''get'' =
        Inr (Some 5, if [''channel'', ''action''] = [] then None
                     else Some (args_of [''channel'', ''action''] [''2'', ''on'']))"
    by (simp only: f option.case if_True)
  then show ?thesis
    using f(1) f(2) by (simp add: args_of_def f(8) f(9))
qed

text \<open>
  The claim as first stated fails for a segment without a slash that holds a hyphen:
  \<open>/files/a-b\<close> does not match the route \<open>/files/<name>\<close>.
\<close>

theorem hyphen_segment_counterexample:
  "list_all (\<lambda>ch. ch \<noteq> CHR ''/'') ''a-b'' \<and>
   GetRouteHandler rx_match (make_routes [(''/files/<name>'', ''GET'', 7 :: nat)])
     ''/files/a-b'' ''GET'' = Inr (None, None)"
  by (simp add: hyphen_facts GetRouteHandler_def make_routes_def)

text \<open>
  C7 (as amended). \<open>_processRequest\<close> always ends without an exception. On every
  path but one (the first line or the headers not read, a route handler that returns or
  raises, a static answer, an upgrade that is not taken) it closes the socket exactly
  once at its end, provided the close of the socket file, where that is an object of its
  own, does not fail. The one other path is the websocket upgrade the server takes:
  there the function returns at once, closes nothing and leaves the socket to the
  \<open>MicroWebSocket\<close>.
\<close>

theorem processRequest_closes_once_unless_handed_over:
  "(\<not> ws_handover srv rq \<and> (has_readline rq \<or> \<not> socketfile_close_raises rq) \<longrightarrow>
      (\<exists>c'. processRequest srv rq c = Inr c' \<and>
            socket_closes c' = Suc (socket_closes c) \<and> handed_over c' = handed_over c)) \<and>
   (ws_handover srv rq \<longrightarrow>
      processRequest srv rq c = Inr (c\<lparr>handed_over := True\<rparr>))"
proof (intro conjI impI)
  assume a: "\<not> ws_handover srv rq \<and> (has_readline rq \<or> \<not> socketfile_close_raises rq)"
  obtain fl c1 where t: "try_block srv rq c = (fl, c1)" by (cases "try_block srv rq c")
  from a have nr: "fl \<noteq> Returned"
    using try_block_returned [of srv rq c] t by simp
  have k: "socket_closes c1 = socket_closes c"
    using try_block_keeps(1) [of srv rq c] t by simp
  have h: "handed_over c1 = handed_over c"
    using try_block_not_handover [of srv rq c] a t by simp
  from a have cl: "has_readline rq \<or> \<not> socketfile_close_raises rq" by simp
  show "\<exists>c'. processRequest srv rq c = Inr c' \<and>
            socket_closes c' = Suc (socket_closes c) \<and> handed_over c' = handed_over c"
  proof (cases fl)
    case Normal
    with t k h show ?thesis
      by (simp add: processRequest_def close_block_fields(1) [OF cl] close_block_fields(2))
  next
    case Raised
    with t k h show ?thesis
      by (simp add: processRequest_def close_block_fields(1) [OF cl] close_block_fields(2))
  next
    case Returned
    with nr show ?thesis by simp
  qed
next
  assume "ws_handover srv rq"
  from try_block_handover [OF this, of c]
  show "processRequest srv rq c = Inr (c\<lparr>handed_over := True\<rparr>)"
    by (simp add: processRequest_def)
qed

theorem processRequest_closes_once_unless_handed_over_witness:
  "\<not> ws_handover ex_server (plain_request ''GET'' ''/status'') \<and>
   has_readline (plain_request ''GET'' ''/status'') \<and>
   (\<exists>c'. processRequest ex_server (plain_request ''GET'' ''/status'') fresh_conn = Inr c' \<and>
         socket_closes c' = Suc 0 \<and> handed_over c' = False) \<and>
   ws_handover ex_server ws_request \<and>
   processRequest ex_server ws_request fresh_conn = Inr (fresh_conn\<lparr>handed_over := True\<rparr>)"
proof -
  have r: "has_readline (plain_request ''GET'' ''/status'')" by (simp add: plain_request_def)
  have f: "socket_closes fresh_conn = 0" "handed_over fresh_conn = False"
    by (simp_all add: fresh_conn_def)
  from processRequest_closes_once_unless_handed_over
         [of ex_server "plain_request ''GET'' ''/status''" fresh_conn]
       processRequest_closes_once_unless_handed_over [of ex_server ws_request fresh_conn]
       status_not_handover ws_request_handover r
  show ?thesis by (simp add: f)
qed

text \<open>
  The claim as first stated fails on the websocket upgrade: after \<open>_processRequest\<close>
  the socket has not been closed.
\<close>

theorem websocket_upgrade_not_closed_counterexample:
  "processRequest ex_server ws_request fresh_conn =
     Inr \<lparr>written = [], socket_closes = 0, socketfile_closes = 0, handed_over = True\<rparr>"
  using try_block_handover [OF ws_request_handover, of fresh_conn]
  by (simp add: processRequest_def fresh_conn_def)

text \<open>
  C9. When the request is dispatched to a route handler and the handler raises,
  \<open>_processRequest\<close> catches the exception, writes a 500 response after whatever the
  handler wrote, and ends without an exception; \<open>_serverProcess\<close> then goes on with
  the next connection.
\<close>

theorem handler_exception_becomes_500:
  assumes "first_line rq = Some (meth, resPath)"
      and "header rq = HeaderOk"
      and "getConnUpgrade (headers rq) = None \<or> getConnUpgrade (headers rq) = Some []"
      and "GetRouteHandler rx_match (srv_routeHandlers srv) resPath meth = Inr (Some h, args)"
      and "snd (h args)"
  shows "(\<exists>c'. processRequest srv rq c = Inr c' \<and> written c' = written c @ fst (h args) @ [500]) \<and>
         (\<not> setup_raises rq \<longrightarrow>
            (\<exists>c'. written c' = fst (h args) @ [500] \<and>
                  serverProcess srv (Accepted rq # evs) handled =
                    serverProcess srv evs (handled @ [c'])))"
proof -
  have d: "dispatch srv rq meth resPath c0 = (Raised, c0\<lparr>written := written c0 @ fst (h args)\<rparr>)"
    for c0
    using assms(4,5) by (simp add: dispatch_def)
  have t: "try_block srv rq c0 = (Raised, c0\<lparr>written := written c0 @ fst (h args)\<rparr>)" for c0
    using assms(1,2,3) d [of c0] by (auto simp: try_block_def Let_def)
  have p: "processRequest srv rq c0 =
             Inr (close_block rq (write_code 500 (c0\<lparr>written := written c0 @ fst (h args)\<rparr>)))"
    for c0
    by (simp add: processRequest_def t)
  have w: "written (close_block rq (write_code 500 (c0\<lparr>written := written c0 @ fst (h args)\<rparr>))) =
             written c0 @ fst (h args) @ [500]" for c0
    by (simp add: close_block_fields(3))
  have "\<exists>c'. processRequest srv rq c = Inr c' \<and> written c' = written c @ fst (h args) @ [500]"
    using p [of c] w [of c] by simp
  moreover have "\<not> setup_raises rq \<longrightarrow>
            (\<exists>c'. written c' = fst (h args) @ [500] \<and>
                  serverProcess srv (Accepted rq # evs) handled =
                    serverProcess srv evs (handled @ [c']))"
  proof
    assume "\<not> setup_raises rq"
    then have "serverProcess srv (Accepted rq # evs) handled =
        serverProcess srv evs (handled @
          [close_block rq (write_code 500 (fresh_conn\<lparr>written := written fresh_conn @ fst (h args)\<rparr>))])"
      by (simp add: client_def p)
    moreover have "written (close_block rq (write_code 500
        (fresh_conn\<lparr>written := written fresh_conn @ fst (h args)\<rparr>))) = fst (h args) @ [500]"
      using w [of fresh_conn] by (simp add: fresh_conn_def)
    ultimately show "\<exists>c'. written c' = fst (h args) @ [500] \<and>
                  serverProcess srv (Accepted rq # evs) handled =
                    serverProcess srv evs (handled @ [c'])"
      by blast
  qed
  ultimately show ?thesis by blast
qed

theorem handler_exception_becomes_500_witness:
  "first_line (plain_request ''GET'' ''/boom'') = Some (''GET'', ''/boom'') \<and>
   snd (boom None) \<and>
   (\<exists>c'. processRequest ex_server (plain_request ''GET'' ''/boom'') fresh_conn = Inr c' \<and>
         written c' = [500]) \<and>
   (\<exists>c'. written c' = [500] \<and>
         serverProcess ex_server
           [Accepted (plain_request ''GET'' ''/boom''), Accepted (plain_request ''GET'' ''/status'')] [] =
         serverProcess ex_server [Accepted (plain_request ''GET'' ''/status'')] [c'])"
proof -
  let ?rq = "plain_request ''GET'' ''/boom''"
  have a1: "first_line ?rq = Some (''GET'', ''/boom'')" by (simp add: plain_request_def)
  have a2: "header ?rq = HeaderOk" by (simp add: plain_request_def)
  have a3: "getConnUpgrade (headers ?rq) = None \<or> getConnUpgrade (headers ?rq) = Some []"
    by (simp add: status_upgrade)
  have a5: "snd (boom None)" by (simp add: boom_def)
  have s: "\<not> setup_raises ?rq" by (simp add: plain_request_def)
  have b: "fst (boom None) = []" by (simp add: boom_def)
  have w: "written fresh_conn = []" by (simp add: fresh_conn_def)
  from handler_exception_becomes_500 [OF a1 a2 a3 boom_route a5, of fresh_conn
         "[Accepted (plain_request ''GET'' ''/status'')]" "[]"] s
  show ?thesis using a1 a5 by (simp add: b w)
qed

end
